theory Spec2Isabelle
  imports Complex_Main "HOL-Library.AList" "HOL-Library.Sublist" "HOL-Library.Multiset"
begin

section \<open>The Drain log-template miner (drain.go)\<close>

text \<open>
  A shallow embedding of \<^verbatim>\<open>drain.go\<close>. Go strings are byte sequences and are modelled
  as \<^typ>\<open>string\<close>; a \<^verbatim>\<open>range\<close> over a string decodes UTF-8. Go's \<^verbatim>\<open>int\<close> is taken
  to be 64 bits wide. Panics are values of the type \<open>error\<close>.
\<close>

datatype error =
    DepthTooSmall      \<comment> \<open>\<^verbatim>\<open>panic("depth argument must be at least 3")\<close>\<close>
  | LengthMismatch     \<comment> \<open>\<^verbatim>\<open>panic("seq1 seq2 be of same length")\<close>\<close>
  | NilDereference     \<comment> \<open>a nil pointer is dereferenced\<close>
  | IndexOutOfRange    \<comment> \<open>a slice is indexed out of range\<close>

definition MaxInt :: int where
  "MaxInt = 9223372036854775807"

definition MinInt :: int where
  "MinInt = - 9223372036854775808"

text \<open>\<^verbatim>\<open>x++\<close> on a Go \<^verbatim>\<open>int\<close>: the increment wraps around.\<close>

definition incr :: "int \<Rightarrow> int" where
  "incr x = (if x = MaxInt then MinInt else x + 1)"

subsection \<open>Library functions used by the source\<close>

text \<open>
  \<^verbatim>\<open>utf8.DecodeRuneInString\<close>: the first code point of a string and its width in bytes.
  An invalid or truncated encoding decodes to \<^verbatim>\<open>RuneError\<close> with width 1.
\<close>

definition RuneError :: nat where
  "RuneError = 0xFFFD"

fun decodeRune :: "string \<Rightarrow> nat \<times> nat" where
  "decodeRune [] = (RuneError, 0)"
| "decodeRune (c # cs) =
     (let s0 = (of_char c :: nat) in
      if s0 < 0x80 then (s0, 1)
      else if s0 < 0xC2 \<or> 0xF4 < s0 then (RuneError, 1)
      else
        let sz = (if s0 < 0xE0 then 2 else if s0 < 0xF0 then 3 else 4 :: nat);
            lo = (if s0 = 0xE0 then 0xA0 else if s0 = 0xF0 then 0x90 else 0x80 :: nat);
            hi = (if s0 = 0xED then 0x9F else if s0 = 0xF4 then 0x8F else 0xBF :: nat)
        in
        if length (c # cs) < sz then (RuneError, 1)
        else
          let s1 = (of_char (cs ! 0) :: nat) in
          if s1 < lo \<or> hi < s1 then (RuneError, 1)
          else if sz \<le> 2 then ((s0 mod 32) * 64 + s1 mod 64, 2)
          else
            let s2 = (of_char (cs ! 1) :: nat) in
            if s2 < 0x80 \<or> 0xBF < s2 then (RuneError, 1)
            else if sz \<le> 3 then ((s0 mod 16) * 4096 + (s1 mod 64) * 64 + s2 mod 64, 3)
            else
              let s3 = (of_char (cs ! 2) :: nat) in
              if s3 < 0x80 \<or> 0xBF < s3 then (RuneError, 1)
              else ((s0 mod 8) * 262144 + (s1 mod 64) * 4096 + (s2 mod 64) * 64 + s3 mod 64, 4))"

text \<open>\<^verbatim>\<open>for _, c := range s\<close>: the code points of a string, in order.\<close>

function runes :: "string \<Rightarrow> nat list" where
  "runes s = (if s = [] then [] else fst (decodeRune s) # runes (drop (snd (decodeRune s)) s))"
  by pat_completeness auto
termination
proof (relation "measure length")
  show "wf (measure length)" by simp
next
  fix s :: string
  assume "s \<noteq> []"
  then obtain c cs where s: "s = c # cs" by (cases s) auto
  have "1 \<le> snd (decodeRune s)" unfolding s by (simp add: Let_def)
  then show "(drop (snd (decodeRune s)) s, s) \<in> measure length"
    using \<open>s \<noteq> []\<close> by (cases s) auto
qed

declare runes.simps [simp del]

text \<open>The same traversal, keeping the bytes of each code point.\<close>

function runeChunks :: "string \<Rightarrow> string list" where
  "runeChunks s =
     (if s = [] then []
      else take (snd (decodeRune s)) s # runeChunks (drop (snd (decodeRune s)) s))"
  by pat_completeness auto
termination
proof (relation "measure length")
  show "wf (measure length)" by simp
next
  fix s :: string
  assume "s \<noteq> []"
  then obtain c cs where s: "s = c # cs" by (cases s) auto
  have "1 \<le> snd (decodeRune s)" unfolding s by (simp add: Let_def)
  then show "(drop (snd (decodeRune s)) s, s) \<in> measure length"
    using \<open>s \<noteq> []\<close> by (cases s) auto
qed

declare runeChunks.simps [simp del]

text \<open>
  \<^verbatim>\<open>utf8.DecodeLastRuneInString\<close>: the last code point of a string and its width. It looks
  back over at most four bytes for a byte that can start an encoding.
\<close>

definition RuneStart :: "char \<Rightarrow> bool" where
  "RuneStart b = ((of_char b :: nat) div 64 \<noteq> 2)"

definition decodeLastRune :: "string \<Rightarrow> nat \<times> nat" where
  "decodeLastRune s =
     (if s = [] then (RuneError, 0)
      else
        let end = length s;
            r = (of_char (last s) :: nat)
        in
        if r < 0x80 then (r, 1)
        else
          let lim = end - 4;
              start = (case filter (\<lambda>i. RuneStart (s ! i)) (rev [lim ..< end - 1]) of
                         i # _ \<Rightarrow> i
                       | [] \<Rightarrow> lim - 1);
              rs = decodeRune (drop start s)
          in if start + snd rs \<noteq> end then (RuneError, 1) else rs)"

text \<open>
  \<^verbatim>\<open>unicode.IsSpace\<close>: in Latin-1 the characters tab, line feed, vertical tab, form feed,
  carriage return, space, U+0085 and U+00A0; beyond Latin-1 the code points with the
  property White\_Space.
\<close>

definition IsSpace :: "nat \<Rightarrow> bool" where
  "IsSpace r =
     (if r \<le> 0xFF then
        (0x09 \<le> r \<and> r \<le> 0x0D) \<or> r = 0x20 \<or> r = 0x85 \<or> r = 0xA0
      else
        r = 0x1680 \<or> (0x2000 \<le> r \<and> r \<le> 0x200A) \<or> r = 0x2028 \<or> r = 0x2029
        \<or> r = 0x202F \<or> r = 0x205F \<or> r = 0x3000)"

function TrimLeftSpace :: "string \<Rightarrow> string" where
  "TrimLeftSpace s =
     (if s = [] then []
      else if IsSpace (fst (decodeRune s)) then TrimLeftSpace (drop (snd (decodeRune s)) s)
      else s)"
  by pat_completeness auto
termination
proof (relation "measure length")
  show "wf (measure length)" by simp
next
  fix s :: string
  assume "s \<noteq> []"
  then obtain c cs where s: "s = c # cs" by (cases s) auto
  have "1 \<le> snd (decodeRune s)" unfolding s by (simp add: Let_def)
  then show "(drop (snd (decodeRune s)) s, s) \<in> measure length"
    using \<open>s \<noteq> []\<close> by (cases s) auto
qed

declare TrimLeftSpace.simps [simp del]

function TrimRightSpace :: "string \<Rightarrow> string" where
  "TrimRightSpace s =
     (if s = [] then []
      else if IsSpace (fst (decodeLastRune s))
        then TrimRightSpace (take (length s - snd (decodeLastRune s)) s)
      else s)"
  by pat_completeness auto
termination
proof (relation "measure length")
  show "wf (measure length)" by simp
next
  fix s :: string
  assume ne: "s \<noteq> []"
  define lim where "lim = length s - 4"
  define start where "start = (case filter (\<lambda>i. RuneStart (s ! i)) (rev [lim ..< length s - 1]) of
                         i # _ \<Rightarrow> i | [] \<Rightarrow> lim - 1)"
  have "start < length s"
  proof (cases "filter (\<lambda>i. RuneStart (s ! i)) (rev [lim ..< length s - 1])")
    case Nil
    then show ?thesis using ne by (simp add: start_def lim_def)
  next
    case (Cons i rest)
    then have "i \<in> set (filter (\<lambda>i. RuneStart (s ! i)) (rev [lim ..< length s - 1]))"
      by simp
    then have "i < length s - 1" by simp
    then show ?thesis using Cons by (simp add: start_def)
  qed
  then have w: "start + snd (decodeRune (drop start s)) = length s
       \<Longrightarrow> 1 \<le> snd (decodeRune (drop start s))"
    by arith
  have "decodeLastRune s =
     (if (of_char (last s) :: nat) < 0x80 then (of_char (last s), 1)
      else if start + snd (decodeRune (drop start s)) \<noteq> length s then (RuneError, 1)
      else decodeRune (drop start s))"
    using ne unfolding decodeLastRune_def Let_def start_def lim_def by simp
  then have "1 \<le> snd (decodeLastRune s)"
    using w by (simp split: if_splits)
  then show "(take (length s - snd (decodeLastRune s)) s, s) \<in> measure length"
    using ne by (cases s) auto
qed

declare TrimRightSpace.simps [simp del]

text \<open>\<^verbatim>\<open>strings.TrimSpace\<close>: leading white space is removed first, then trailing.\<close>

definition TrimSpace :: "string \<Rightarrow> string" where
  "TrimSpace s = TrimRightSpace (TrimLeftSpace s)"

text \<open>
  \<^verbatim>\<open>strings.Replace(s, old, new, -1)\<close>: every non-overlapping occurrence of \<open>old\<close>, found
  from the left, is replaced. An empty \<open>old\<close> matches before the string and after every
  code point.
\<close>

function ReplaceFrom :: "string \<Rightarrow> string \<Rightarrow> string \<Rightarrow> string" where
  "ReplaceFrom s old new =
     (if s = [] \<or> old = [] then s
      else if prefix old s then new @ ReplaceFrom (drop (length old) s) old new
      else hd s # ReplaceFrom (tl s) old new)"
  by pat_completeness auto
termination
  by (relation "measure (\<lambda>(s, old, new). length s)") (auto simp: neq_Nil_conv)

declare ReplaceFrom.simps [simp del]

definition Replace :: "string \<Rightarrow> string \<Rightarrow> string \<Rightarrow> string" where
  "Replace s old new =
     (if old = new then s
      else if old = [] then new @ concat (map (\<lambda>ch. ch @ new) (runeChunks s))
      else ReplaceFrom s old new)"

text \<open>
  \<^verbatim>\<open>strings.Split(s, sep)\<close>: the pieces of \<open>s\<close> between the occurrences of \<open>sep\<close>.
  \<open>cur\<close> holds the piece being read, reversed. An empty \<open>sep\<close> splits after every code
  point (\<^verbatim>\<open>explode\<close>): an invalid byte becomes the encoding of \<^verbatim>\<open>RuneError\<close>, except in
  the last piece, which is the rest of the string as it is.
\<close>

function SplitFrom :: "string \<Rightarrow> string \<Rightarrow> string \<Rightarrow> string list" where
  "SplitFrom cur s sep =
     (if s = [] \<or> sep = [] then [rev cur]
      else if prefix sep s then rev cur # SplitFrom [] (drop (length sep) s) sep
      else SplitFrom (hd s # cur) (tl s) sep)"
  by pat_completeness auto
termination
  by (relation "measure (\<lambda>(cur, s, sep). length s)") (auto simp: neq_Nil_conv)

declare SplitFrom.simps [simp del]

definition explode :: "string \<Rightarrow> string list" where
  "explode s =
     (case runeChunks s of
        [] \<Rightarrow> []
      | chunks \<Rightarrow>
          map (\<lambda>ch. if fst (decodeRune ch) = RuneError then [CHR 0xEF, CHR 0xBF, CHR 0xBD] else ch)
              (butlast chunks) @ [last chunks])"

definition Split :: "string \<Rightarrow> string \<Rightarrow> string list" where
  "Split s sep = (if sep = [] then explode s else SplitFrom [] s sep)"

text \<open>\<^verbatim>\<open>strconv.Itoa\<close>: the decimal form of an integer.\<close>

function FormatNat :: "nat \<Rightarrow> string" where
  "FormatNat n =
     (if n < 10 then [char_of (48 + n)]
      else FormatNat (n div 10) @ [char_of (48 + n mod 10)])"
  by pat_completeness auto
termination
  by (relation "measure id") auto

declare FormatNat.simps [simp del]

definition Itoa :: "int \<Rightarrow> string" where
  "Itoa i = (if i < 0 then CHR ''-'' # FormatNat (nat (- i)) else FormatNat (nat i))"

text \<open>
  \<^verbatim>\<open>unicode.IsNumber\<close>: the code points of the Unicode category N. In Latin-1 these are the
  digits 0 to 9 and the superscripts and fractions U+00B2, U+00B3, U+00B9, U+00BC, U+00BD,
  U+00BE. The table of the category beyond Latin-1 belongs to the Go distribution and is
  the parameter \<open>Number\<close>.
\<close>

definition IsNumber :: "nat set \<Rightarrow> nat \<Rightarrow> bool" where
  "IsNumber Number r =
     (if r \<le> 0xFF then
        (0x30 \<le> r \<and> r \<le> 0x39) \<or> r = 0xB2 \<or> r = 0xB3 \<or> r = 0xB9
        \<or> r = 0xBC \<or> r = 0xBD \<or> r = 0xBE
      else r \<in> Number)"

subsection \<open>Configuration, clusters and the cluster store\<close>

text \<open>
  \<^verbatim>\<open>SimTh\<close> and the similarity are \<^verbatim>\<open>float64\<close> in the source. A finite
  \<^verbatim>\<open>float64\<close> is modelled by the rational it denotes. The conversion of an \<^verbatim>\<open>int\<close> and
  the division round their exact result to the nearest number of 53 significant bits,
  and to the one with an even last bit when two are equally near: \<open>round_f64\<close>, where
  \<open>floor_log2 a\<close> is the exponent \<open>e\<close> with \<open>2 ^ e \<le> a < 2 ^ (e + 1)\<close>. The exponent is left
  unbounded: the numbers of the program are token counts below \<open>2 ^ 63\<close> and quotients of
  two of them, far from the largest and the smallest normal \<^verbatim>\<open>float64\<close>. The only other
  value the division can produce is the NaN of \<open>0 / 0\<close>, and every comparison with NaN is
  false.
\<close>

function bit_length :: "int \<Rightarrow> int" where
  "bit_length k = (if k \<le> 0 then 0 else 1 + bit_length (k div 2))"
  by pat_completeness auto
termination
  by (relation "measure nat") auto

declare bit_length.simps [simp del]

definition floor_log2 :: "rat \<Rightarrow> int" where
  "floor_log2 a =
     (let (p, q) = quotient_of a;
          e = bit_length p - bit_length q
      in if power_int 2 e \<le> a then e else e - 1)"

definition round_half_even :: "rat \<Rightarrow> int" where
  "round_half_even q =
     (let f = \<lfloor>q\<rfloor>; r = q - of_int f
      in if r < 1 / 2 then f else if r > 1 / 2 then f + 1 else if even f then f else f + 1)"

definition round_f64 :: "rat \<Rightarrow> rat" where
  "round_f64 x =
     (if x = 0 then 0
      else let u = power_int 2 (floor_log2 \<bar>x\<bar> - 52)
           in sgn x * of_int (round_half_even (\<bar>x\<bar> / u)) * u)"

datatype float64 = F64 rat | NaN

fun f64_gt :: "float64 \<Rightarrow> float64 \<Rightarrow> bool" where
  "f64_gt (F64 a) (F64 b) = (a > b)"
| "f64_gt _ _ = False"

fun f64_eq :: "float64 \<Rightarrow> float64 \<Rightarrow> bool" where
  "f64_eq (F64 a) (F64 b) = (a = b)"
| "f64_eq _ _ = False"

fun f64_ge :: "float64 \<Rightarrow> float64 \<Rightarrow> bool" where
  "f64_ge (F64 a) (F64 b) = (a \<ge> b)"
| "f64_ge _ _ = False"

record Config =
  maxNodeDepth :: int
  LogClusterDepth :: int
  SimTh :: rat
  MaxChildren :: int
  ExtraDelimiters :: "string list"
  MaxClusters :: int
  ParamString :: string

record LogCluster =
  logTemplateTokens :: "string list"
  id' :: int
  size' :: int

text \<open>
  Modelled from the spec: the type \<^verbatim>\<open>simplelru.LRU\<close> of the imported package
  \<^verbatim>\<open>hashicorp/golang-lru\<close>, which is not part of the repository. \<open>evictList\<close> is its
  recency list, most recently used first. \<^verbatim>\<open>NewLRU\<close> refuses a size that is not positive
  and returns nil; \<^verbatim>\<open>Add\<close> moves a known key to the front and replaces its value, or
  puts a new key in front and removes the oldest entry when the list is longer than the
  size; \<^verbatim>\<open>Get\<close> moves the key it finds to the front; \<^verbatim>\<open>Peek\<close> does not; \<^verbatim>\<open>Keys\<close>
  lists the keys from the oldest to the newest.
\<close>

record LRU =
  lru_size :: int
  evictList :: "(int \<times> LogCluster) list"

definition NewLRU :: "int \<Rightarrow> LRU option" where
  "NewLRU sz = (if sz \<le> 0 then None else Some \<lparr>lru_size = sz, evictList = []\<rparr>)"

definition LRU_Add :: "int \<Rightarrow> LogCluster \<Rightarrow> LRU \<Rightarrow> LRU" where
  "LRU_Add key v c =
     (case map_of (evictList c) key of
        Some old \<Rightarrow> c\<lparr>evictList := (key, v) # remove1 (key, old) (evictList c)\<rparr>
      | None \<Rightarrow>
          (let l = (key, v) # evictList c
           in if int (length l) > lru_size c then c\<lparr>evictList := butlast l\<rparr>
              else c\<lparr>evictList := l\<rparr>))"

definition LRU_Get :: "int \<Rightarrow> LRU \<Rightarrow> LogCluster option \<times> LRU" where
  "LRU_Get key c =
     (case map_of (evictList c) key of
        Some v \<Rightarrow> (Some v, c\<lparr>evictList := (key, v) # remove1 (key, v) (evictList c)\<rparr>)
      | None \<Rightarrow> (None, c))"

definition LRU_Peek :: "int \<Rightarrow> LRU \<Rightarrow> LogCluster option" where
  "LRU_Peek key c = map_of (evictList c) key"

definition LRU_Keys :: "LRU \<Rightarrow> int list" where
  "LRU_Keys c = rev (map fst (evictList c))"

text \<open>
  \<^verbatim>\<open>LogClusterCache\<close>. The error of \<^verbatim>\<open>NewLRU\<close> is dropped by
  \<^verbatim>\<open>createLogClusterCache\<close>, so for a negative \<^verbatim>\<open>MaxClusters\<close> the field \<open>cache\<close> is nil
  and every method panics.
\<close>

record LogClusterCache =
  cache :: "LRU option"

definition createLogClusterCache :: "int \<Rightarrow> LogClusterCache" where
  "createLogClusterCache maxSize =
     \<lparr>cache = NewLRU (if maxSize = 0 then MaxInt else maxSize)\<rparr>"

definition cache_Values :: "LogClusterCache \<Rightarrow> error + LogCluster list" where
  "cache_Values c =
     (case cache c of
        None \<Rightarrow> Inl NilDereference
      | Some l \<Rightarrow> Inr (List.map_filter (\<lambda>key. LRU_Peek key l) (LRU_Keys l)))"

definition cache_Set :: "int \<Rightarrow> LogCluster \<Rightarrow> LogClusterCache \<Rightarrow> error + LogClusterCache" where
  "cache_Set key cluster c =
     (case cache c of
        None \<Rightarrow> Inl NilDereference
      | Some l \<Rightarrow> Inr (c\<lparr>cache := Some (LRU_Add key cluster l)\<rparr>))"

definition cache_Get :: "int \<Rightarrow> LogClusterCache \<Rightarrow> error + (LogCluster option \<times> LogClusterCache)" where
  "cache_Get key c =
     (case cache c of
        None \<Rightarrow> Inl NilDereference
      | Some l \<Rightarrow> Inr (fst (LRU_Get key l), c\<lparr>cache := Some (snd (LRU_Get key l))\<rparr>))"

text \<open>
  The store holds pointers to clusters, and \<^verbatim>\<open>Log\<close> changes a matched cluster through
  the pointer that the search returned. Every cluster is entered under its own id
  (\<^verbatim>\<open>Set(clusterID, matchCluster)\<close>), so the write through the pointer is modelled as a
  write to the entry with that key, which keeps its place in the recency list.
\<close>

definition cache_write :: "LogCluster \<Rightarrow> LogClusterCache \<Rightarrow> LogClusterCache" where
  "cache_write cl c =
     (case cache c of
        None \<Rightarrow> c
      | Some l \<Rightarrow>
          c\<lparr>cache := Some (l\<lparr>evictList :=
              map (\<lambda>(k, v). if k = id' cl then (k, cl) else (k, v)) (evictList l)\<rparr>)\<rparr>)"

subsection \<open>The prefix tree and the miner\<close>

text \<open>
  A node's children are a Go map, modelled as an association list that is read with
  \<^const>\<open>map_of\<close> and written with \<^const>\<open>AList.update\<close>; its keys stay distinct, so its
  length is the number of entries.
\<close>

datatype Node = Node (keyToChildNode: "(string \<times> Node) list") (clusterIDs: "int list")

definition createNode :: Node where
  "createNode = Node [] []"

text \<open>
  The constant \<^verbatim>\<open>0.4\<close> of \<^verbatim>\<open>DefaultConfig\<close> is the \<^verbatim>\<open>float64\<close> nearest to four tenths.
\<close>

definition DefaultConfig :: Config where
  "DefaultConfig =
     \<lparr>maxNodeDepth = 0, LogClusterDepth = 4, SimTh = round_f64 (4 / 10), MaxChildren = 100,
      ExtraDelimiters = [], MaxClusters = 0, ParamString = ''<*>''\<rparr>"

record Drain =
  config :: Config
  rootNode :: Node
  idToCluster :: LogClusterCache
  clustersCounter :: int

definition New :: "Config \<Rightarrow> error + Drain" where
  "New cfg =
     (if LogClusterDepth cfg < 3 then Inl DepthTooSmall
      else Inr \<lparr>config = cfg\<lparr>maxNodeDepth := LogClusterDepth cfg - 2\<rparr>,
                rootNode = createNode,
                idToCluster = createLogClusterCache (MaxClusters cfg),
                clustersCounter = 0\<rparr>)"

definition getContentAsTokens :: "Drain \<Rightarrow> string \<Rightarrow> string list" where
  "getContentAsTokens d content =
     Split (fold (\<lambda>extraDelimiter c. Replace c extraDelimiter '' '')
                 (ExtraDelimiters (config d)) (TrimSpace content)) '' ''"

text \<open>
  \<^verbatim>\<open>getSeqDistance\<close>. The loop counts the positions where the template holds the wildcard
  and the other positions where the two tokens agree. The result is
  \<^verbatim>\<open>float64(simTokens) / float64(len(seq1))\<close>: two conversions and a division, each of them
  rounded. Both counts are zero when the sequences are empty, and the quotient is then
  \<open>0 / 0\<close>.
\<close>

definition getSeqDistance :: "Drain \<Rightarrow> string list \<Rightarrow> string list \<Rightarrow> bool \<Rightarrow> error + (float64 \<times> int)" where
  "getSeqDistance d seq1 seq2 includeParams =
     (if length seq1 \<noteq> length seq2 then Inl LengthMismatch
      else
        let (simTokens, paramCount) =
              fold (\<lambda>(token1, token2) (simTokens, paramCount).
                      if token1 = ParamString (config d) then (simTokens, paramCount + 1)
                      else if token1 = token2 then (simTokens + 1, paramCount)
                      else (simTokens, paramCount))
                   (zip seq1 seq2) (0 :: int, 0 :: int);
            simTokens = (if includeParams then simTokens + paramCount else simTokens);
            retVal = (if length seq1 = 0 then NaN
                      else F64 (round_f64 (round_f64 (of_int simTokens)
                                            / round_f64 (of_int (int (length seq1))))))
        in Inr (retVal, paramCount))"

definition createTemplate :: "Drain \<Rightarrow> string list \<Rightarrow> string list \<Rightarrow> error + string list" where
  "createTemplate d seq1 seq2 =
     (if length seq1 \<noteq> length seq2 then Inl LengthMismatch
      else Inr (map (\<lambda>(t1, t2). if t1 \<noteq> t2 then ParamString (config d) else t2)
                    (zip seq1 seq2)))"

fun hasNumbers_loop :: "nat set \<Rightarrow> nat list \<Rightarrow> bool" where
  "hasNumbers_loop Number [] = False"
| "hasNumbers_loop Number (c # cs) =
     (if IsNumber Number c then True else hasNumbers_loop Number cs)"

definition hasNumbers :: "nat set \<Rightarrow> string \<Rightarrow> bool" where
  "hasNumbers Number s = hasNumbers_loop Number (runes s)"

text \<open>
  The loop of \<^verbatim>\<open>fastMatch\<close>, with the best similarity, the best wildcard count and the
  best cluster so far. The lookup is \<^verbatim>\<open>d.idToCluster.Get\<close>, which changes the store.
\<close>

fun fastMatch_loop ::
  "Drain \<Rightarrow> string list \<Rightarrow> bool \<Rightarrow> int list \<Rightarrow> float64 \<times> int \<times> LogCluster option
     \<Rightarrow> error + ((float64 \<times> int \<times> LogCluster option) \<times> Drain)" where
  "fastMatch_loop d tokens includeParams [] best = Inr (best, d)"
| "fastMatch_loop d tokens includeParams (clusterID # rest) (maxSim, maxParamCount, maxCluster) =
     (case cache_Get clusterID (idToCluster d) of
        Inl e \<Rightarrow> Inl e
      | Inr (None, c) \<Rightarrow>
          fastMatch_loop (d\<lparr>idToCluster := c\<rparr>) tokens includeParams rest
            (maxSim, maxParamCount, maxCluster)
      | Inr (Some cluster, c) \<Rightarrow>
          (case getSeqDistance d (logTemplateTokens cluster) tokens includeParams of
             Inl e \<Rightarrow> Inl e
           | Inr (curSim, paramCount) \<Rightarrow>
               if f64_gt curSim maxSim \<or> (f64_eq curSim maxSim \<and> paramCount > maxParamCount)
               then fastMatch_loop (d\<lparr>idToCluster := c\<rparr>) tokens includeParams rest
                      (curSim, paramCount, Some cluster)
               else fastMatch_loop (d\<lparr>idToCluster := c\<rparr>) tokens includeParams rest
                      (maxSim, maxParamCount, maxCluster)))"

definition fastMatch ::
  "Drain \<Rightarrow> int list \<Rightarrow> string list \<Rightarrow> rat \<Rightarrow> bool \<Rightarrow> error + (LogCluster option \<times> Drain)" where
  "fastMatch d ids tokens simTh includeParams =
     (case fastMatch_loop d tokens includeParams ids (F64 (- 1), - 1, None) of
        Inl e \<Rightarrow> Inl e
      | Inr ((maxSim, maxParamCount, maxCluster), d') \<Rightarrow>
          Inr (if f64_ge maxSim (F64 simTh) then maxCluster else None, d'))"

text \<open>
  The descent of \<^verbatim>\<open>treeSearch\<close>: the leaf for the tokens, or nothing when neither the
  token nor the wildcard labels a child.
\<close>

fun treeSearch_loop :: "Drain \<Rightarrow> int \<Rightarrow> int \<Rightarrow> string list \<Rightarrow> Node \<Rightarrow> Node option" where
  "treeSearch_loop d tokenCount curNodeDepth [] curNode = Some curNode"
| "treeSearch_loop d tokenCount curNodeDepth (token # rest) curNode =
     (if curNodeDepth \<ge> maxNodeDepth (config d) then Some curNode
      else if curNodeDepth = tokenCount then Some curNode
      else
        (case map_of (keyToChildNode curNode) token of
           Some next \<Rightarrow> treeSearch_loop d tokenCount (curNodeDepth + 1) rest next
         | None \<Rightarrow>
             (case map_of (keyToChildNode curNode) (ParamString (config d)) of
                Some next \<Rightarrow> treeSearch_loop d tokenCount (curNodeDepth + 1) rest next
              | None \<Rightarrow> None)))"

definition treeSearch ::
  "Drain \<Rightarrow> Node \<Rightarrow> string list \<Rightarrow> rat \<Rightarrow> bool \<Rightarrow> error + (LogCluster option \<times> Drain)" where
  "treeSearch d rootN tokens simTh includeParams =
     (let tokenCount = int (length tokens) in
      case map_of (keyToChildNode rootN) (Itoa tokenCount) of
        None \<Rightarrow> Inr (None, d)
      | Some curNode \<Rightarrow>
          if tokenCount = 0 then
            (case clusterIDs curNode of
               [] \<Rightarrow> Inl IndexOutOfRange
             | clusterID # _ \<Rightarrow>
                 (case cache_Get clusterID (idToCluster d) of
                    Inl e \<Rightarrow> Inl e
                  | Inr (cluster, c) \<Rightarrow> Inr (cluster, d\<lparr>idToCluster := c\<rparr>)))
          else
            (case treeSearch_loop d tokenCount 1 tokens curNode of
               None \<Rightarrow> Inr (None, d)
             | Some leaf \<Rightarrow> fastMatch d (clusterIDs leaf) tokens simTh includeParams))"

text \<open>
  The clean-up loop of \<^verbatim>\<open>addSeqToPrefixTree\<close>: the ids that the store still holds. It
  also looks up with \<^verbatim>\<open>Get\<close>.
\<close>

fun cleanup_loop :: "Drain \<Rightarrow> int list \<Rightarrow> error + (int list \<times> Drain)" where
  "cleanup_loop d [] = Inr ([], d)"
| "cleanup_loop d (clusterID # rest) =
     (case cache_Get clusterID (idToCluster d) of
        Inl e \<Rightarrow> Inl e
      | Inr (cluster, c) \<Rightarrow>
          (case cleanup_loop (d\<lparr>idToCluster := c\<rparr>) rest of
             Inl e \<Rightarrow> Inl e
           | Inr (newClusterIDs, d') \<Rightarrow>
               Inr (if cluster \<noteq> None then clusterID # newClusterIDs else newClusterIDs, d')))"

text \<open>
  One step of the insertion loop below a node that is not yet the leaf: the key of the
  child the loop moves to, and that child (a new node, or the one the map holds). In the
  last case of a token without numbers the map has no wildcard entry, \<^verbatim>\<open>curNode\<close>
  becomes nil, and the next round of the loop, which always follows, dereferences it.
\<close>

definition addSeq_step :: "nat set \<Rightarrow> Drain \<Rightarrow> string \<Rightarrow> Node \<Rightarrow> error + (string \<times> Node)" where
  "addSeq_step Number d token curNode =
     (let children = keyToChildNode curNode;
          param = ParamString (config d)
      in
      case map_of children token of
        None \<Rightarrow>
          if \<not> hasNumbers Number token then
            (case map_of children param of
               Some wildcard \<Rightarrow>
                 if int (length children) < MaxChildren (config d) then Inr (token, createNode)
                 else Inr (param, wildcard)
             | None \<Rightarrow>
                 if int (length children) + 1 < MaxChildren (config d) then Inr (token, createNode)
                 else if int (length children) + 1 = MaxChildren (config d)
                   then Inr (param, createNode)
                 else Inl NilDereference)
          else
            (case map_of children param of
               None \<Rightarrow> Inr (param, createNode)
             | Some wildcard \<Rightarrow> Inr (param, wildcard))
      | Some child \<Rightarrow> Inr (token, child))"

fun addSeq_loop ::
  "nat set \<Rightarrow> Drain \<Rightarrow> LogCluster \<Rightarrow> int \<Rightarrow> int \<Rightarrow> string list \<Rightarrow> Node \<Rightarrow> error + (Node \<times> Drain)" where
  "addSeq_loop Number d cluster tokenCount currentDepth [] curNode = Inr (curNode, d)"
| "addSeq_loop Number d cluster tokenCount currentDepth (token # rest) curNode =
     (if currentDepth \<ge> maxNodeDepth (config d) \<or> currentDepth \<ge> tokenCount then
        (case cleanup_loop d (clusterIDs curNode) of
           Inl e \<Rightarrow> Inl e
         | Inr (newClusterIDs, d') \<Rightarrow>
             Inr (Node (keyToChildNode curNode) (newClusterIDs @ [id' cluster]), d'))
      else
        (case addSeq_step Number d token curNode of
           Inl e \<Rightarrow> Inl e
         | Inr (key, child) \<Rightarrow>
             (case addSeq_loop Number d cluster tokenCount (currentDepth + 1) rest child of
                Inl e \<Rightarrow> Inl e
              | Inr (child', d') \<Rightarrow>
                  Inr (Node (AList.update key child' (keyToChildNode curNode))
                            (clusterIDs curNode), d'))))"

definition addSeqToPrefixTree ::
  "nat set \<Rightarrow> Drain \<Rightarrow> Node \<Rightarrow> LogCluster \<Rightarrow> error + (Node \<times> Drain)" where
  "addSeqToPrefixTree Number d rootN cluster =
     (let tokenCount = int (length (logTemplateTokens cluster));
          tokenCountStr = Itoa tokenCount;
          firstLayerNode = (case map_of (keyToChildNode rootN) tokenCountStr of
                              None \<Rightarrow> createNode
                            | Some n \<Rightarrow> n)
      in
      if tokenCount = 0 then
        Inr (Node (AList.update tokenCountStr
                     (Node (keyToChildNode firstLayerNode)
                           (clusterIDs firstLayerNode @ [id' cluster]))
                     (keyToChildNode rootN))
                  (clusterIDs rootN), d)
      else
        (case addSeq_loop Number d cluster tokenCount 1 (logTemplateTokens cluster)
                firstLayerNode of
           Inl e \<Rightarrow> Inl e
         | Inr (firstLayerNode', d') \<Rightarrow>
             Inr (Node (AList.update tokenCountStr firstLayerNode' (keyToChildNode rootN))
                       (clusterIDs rootN), d')))"

definition Log :: "nat set \<Rightarrow> Drain \<Rightarrow> string \<Rightarrow> error + (LogCluster \<times> Drain)" where
  "Log Number d content =
     (let contentTokens = getContentAsTokens d content in
      case treeSearch d (rootNode d) contentTokens (SimTh (config d)) False of
        Inl e \<Rightarrow> Inl e
      | Inr (None, d1) \<Rightarrow>
          (let clusterID = incr (clustersCounter d1);
               d2 = d1\<lparr>clustersCounter := clusterID\<rparr>;
               matchCluster = \<lparr>logTemplateTokens = contentTokens, id' = clusterID, size' = 1\<rparr>
           in
           case cache_Set clusterID matchCluster (idToCluster d2) of
             Inl e \<Rightarrow> Inl e
           | Inr c \<Rightarrow>
               (case addSeqToPrefixTree Number (d2\<lparr>idToCluster := c\<rparr>) (rootNode d2)
                       matchCluster of
                  Inl e \<Rightarrow> Inl e
                | Inr (rootN, d3) \<Rightarrow> Inr (matchCluster, d3\<lparr>rootNode := rootN\<rparr>)))
      | Inr (Some matchCluster, d1) \<Rightarrow>
          (case createTemplate d1 contentTokens (logTemplateTokens matchCluster) of
             Inl e \<Rightarrow> Inl e
           | Inr newTemplateTokens \<Rightarrow>
               (let matchCluster' = matchCluster\<lparr>logTemplateTokens := newTemplateTokens,
                                                 size' := incr (size' matchCluster)\<rparr>;
                    c = cache_write matchCluster' (idToCluster d1)
                in
                case cache_Get (id' matchCluster') c of
                  Inl e \<Rightarrow> Inl e
                | Inr (_, c') \<Rightarrow> Inr (matchCluster', d1\<lparr>idToCluster := c'\<rparr>))))"

definition Clusters :: "Drain \<Rightarrow> error + LogCluster list" where
  "Clusters d = cache_Values (idToCluster d)"

text \<open>
  A run of the miner: the lines are trained in order, as the loop of the example program
  does; the result is the cluster every call returned and the final state. A panic ends
  the run.
\<close>

fun trainAll :: "nat set \<Rightarrow> Drain \<Rightarrow> string list \<Rightarrow> error + (LogCluster list \<times> Drain)" where
  "trainAll Number d [] = Inr ([], d)"
| "trainAll Number d (line # rest) =
     (case Log Number d line of
        Inl e \<Rightarrow> Inl e
      | Inr (cluster, d') \<Rightarrow>
          (case trainAll Number d' rest of
             Inl e \<Rightarrow> Inl e
           | Inr (clusters, d'') \<Rightarrow> Inr (cluster # clusters, d'')))"

text \<open>
  Modelled from the spec: the operation \<^verbatim>\<open>Match\<close>, which the example program calls and
  \<^verbatim>\<open>drain.go\<close> does not define. The spec (4.8) gives it as the first two steps of
  training, tokenization and tree search, with \<open>include_params = true\<close>; it returns the
  best cluster or none.
\<close>

definition Match :: "Drain \<Rightarrow> string \<Rightarrow> error + (LogCluster option \<times> Drain)" where
  "Match d content =
     treeSearch d (rootNode d) (getContentAsTokens d content) (SimTh (config d)) True"

subsection \<open>Notions used to state the properties\<close>

text \<open>
  \<^verbatim>\<open>unicode.IsDigit\<close>, the classification of a code point as a decimal digit (category
  Nd): in Latin-1 the digits 0 to 9; the table beyond Latin-1 is the parameter \<open>Digit\<close>.
\<close>

definition IsDigit :: "nat set \<Rightarrow> nat \<Rightarrow> bool" where
  "IsDigit Digit r = (if r \<le> 0xFF then 0x30 \<le> r \<and> r \<le> 0x39 else r \<in> Digit)"

text \<open>The cluster that the store holds under an id, read without touching the store.\<close>

definition lookup :: "LogClusterCache \<Rightarrow> int \<Rightarrow> LogCluster option" where
  "lookup c key = (case cache c of None \<Rightarrow> None | Some l \<Rightarrow> LRU_Peek key l)"

text \<open>
  Two stores hold the same entries when both are nil, or both have the same capacity and
  their recency lists are permutations of each other.
\<close>

definition same_entries :: "LogClusterCache \<Rightarrow> LogClusterCache \<Rightarrow> bool" where
  "same_entries c c' =
     (case (cache c, cache c') of
        (None, None) \<Rightarrow> True
      | (Some l, Some l') \<Rightarrow> lru_size l' = lru_size l \<and> mset (evictList l') = mset (evictList l)
      | _ \<Rightarrow> False)"

text \<open>The nodes of a tree: the node itself and all nodes below it.\<close>

fun nodes :: "Node \<Rightarrow> Node list" where
  "nodes (Node ch ids) = Node ch ids # concat (map (\<lambda>(k, c). nodes c) ch)"

text \<open>The nodes strictly below a node.\<close>

definition subnodes :: "Node \<Rightarrow> Node list" where
  "subnodes n = concat (map (\<lambda>(k, c). nodes c) (keyToChildNode n))"

text \<open>
  A template generalizes another when both have the same length and it holds the
  wildcard \<open>P\<close> wherever the other does.
\<close>

definition generalizes :: "string \<Rightarrow> string list \<Rightarrow> string list \<Rightarrow> bool" where
  "generalizes P old new =
     (length new = length old \<and> (\<forall>p < length old. old ! p = P \<longrightarrow> new ! p = P))"

text \<open>A miner built with \<^verbatim>\<open>New\<close> from a configuration and trained on a list of lines.\<close>

definition runMiner :: "nat set \<Rightarrow> Config \<Rightarrow> string list \<Rightarrow> error + (LogCluster list \<times> Drain)" where
  "runMiner Number cfg lines =
     (case New cfg of Inl e \<Rightarrow> Inl e | Inr d0 \<Rightarrow> trainAll Number d0 lines)"

text \<open>
  The similarity of the spec (4.2), written from its words. Over the positions of the
  template and the tokens: a position where the template holds the wildcard counts for
  \<open>param_count\<close>, any other position where template and token agree counts for
  \<open>sim_tokens\<close>; the similarity is
  \<open>(sim_tokens + (param_count if include_params else 0)) / L\<close>.
\<close>

definition spec_seq_distance :: "string \<Rightarrow> string list \<Rightarrow> string list \<Rightarrow> bool \<Rightarrow> rat \<times> int" where
  "spec_seq_distance P template tokens include_params =
     (let param_count = int (length (filter (\<lambda>(t, x). t = P) (zip template tokens)));
          sim_tokens = int (length (filter (\<lambda>(t, x). t \<noteq> P \<and> t = x) (zip template tokens)))
      in (of_int (sim_tokens + (if include_params then param_count else 0))
            / of_int (int (length template)),
          param_count))"

text \<open>
  The order of the leaf match of the spec (4.5) on pairs of similarity and wildcard
  count: a higher similarity wins, and among equal similarities the higher wildcard count.
\<close>

definition spec_better :: "rat \<times> int \<Rightarrow> rat \<times> int \<Rightarrow> bool" where
  "spec_better a b = (fst a > fst b \<or> (fst a = fst b \<and> snd a > snd b))"

text \<open>
  The selection of the spec (4.5): the first candidate that no candidate beats; it is the
  result unless its similarity is below the threshold.
\<close>

definition spec_best :: "rat \<Rightarrow> (LogCluster \<Rightarrow> rat \<times> int) \<Rightarrow> LogCluster list \<Rightarrow> LogCluster option" where
  "spec_best theta score candidates =
     (case filter (\<lambda>m. \<forall>cl \<in> set candidates. \<not> spec_better (score cl) (score m)) candidates of
        [] \<Rightarrow> None
      | m # _ \<Rightarrow> if fst (score m) < theta then None else Some m)"

text \<open>
  The descent of the spec (4.4, step 3): while \<open>depth < max_node_depth\<close> and
  \<open>depth < n\<close>, move to the child for the token \<open>tokens[depth - 1]\<close>, or else to the
  wildcard child; with neither there is no leaf.
\<close>

function spec_descend :: "int \<Rightarrow> string \<Rightarrow> string list \<Rightarrow> nat \<Rightarrow> Node \<Rightarrow> Node option" where
  "spec_descend max_node_depth P tokens depth node =
     (if int depth < max_node_depth \<and> depth < length tokens then
        (case map_of (keyToChildNode node) (tokens ! (depth - 1)) of
           Some child \<Rightarrow> spec_descend max_node_depth P tokens (depth + 1) child
         | None \<Rightarrow>
             (case map_of (keyToChildNode node) P of
                Some child \<Rightarrow> spec_descend max_node_depth P tokens (depth + 1) child
              | None \<Rightarrow> None))
      else Some node)"
  by pat_completeness auto
termination
  by (relation "measure (\<lambda>(m, P, tokens, depth, node). length tokens - depth)") auto

declare spec_descend.simps [simp del]

text \<open>
  The candidates of a non-empty token list in a state: the clusters that the store holds
  under the ids of the leaf that the descent reaches from the root's child for the token
  count, in the order of the leaf's id list; none when there is no such leaf.
\<close>

definition spec_candidates :: "Drain \<Rightarrow> string list \<Rightarrow> LogCluster list" where
  "spec_candidates d tokens =
     (case map_of (keyToChildNode (rootNode d)) (Itoa (int (length tokens))) of
        None \<Rightarrow> []
      | Some node \<Rightarrow>
          (case spec_descend (maxNodeDepth (config d)) (ParamString (config d)) tokens 1 node of
             None \<Rightarrow> []
           | Some leaf \<Rightarrow> List.map_filter (lookup (idToCluster d)) (clusterIDs leaf)))"

subsection \<open>Invariants of the miner\<close>

text \<open>
  The store below a counter value \<open>n\<close>: its capacity is positive, its keys are distinct,
  and every entry is a cluster entered under its own id, which lies between 1 and \<open>n\<close>.
\<close>

definition store_ok :: "LogClusterCache \<Rightarrow> int \<Rightarrow> bool" where
  "store_ok c n =
     (case cache c of
        None \<Rightarrow> True
      | Some l \<Rightarrow> 1 \<le> lru_size l \<and> distinct (map fst (evictList l))
                  \<and> (\<forall>(k, v) \<in> set (evictList l). id' v = k \<and> 1 \<le> k \<and> k \<le> n))"

text \<open>All cluster ids held in a tree.\<close>

fun ids_of :: "Node \<Rightarrow> int set" where
  "ids_of (Node ch ids) = set ids \<union> (\<Union>(k, c) \<in> set ch. ids_of c)"

text \<open>The number that a string of decimal digits denotes.\<close>

definition decval :: "string \<Rightarrow> nat" where
  "decval s = fold (\<lambda>c a. a * 10 + ((of_char c :: nat) - 48)) s 0"

text \<open>Two states that differ at most in the recency order of the store.\<close>

definition touch_rel :: "Drain \<Rightarrow> Drain \<Rightarrow> bool" where
  "touch_rel d d' =
     (d' = d\<lparr>idToCluster := idToCluster d'\<rparr>
      \<and> lookup (idToCluster d') = lookup (idToCluster d)
      \<and> (\<forall>n. store_ok (idToCluster d) n \<longrightarrow> store_ok (idToCluster d') n)
      \<and> (cache (idToCluster d) = None \<longleftrightarrow> cache (idToCluster d') = None)
      \<and> same_entries (idToCluster d) (idToCluster d'))"

text \<open>
  The invariant of the miner: the store is well formed below the counter, every id in
  the tree is at most the counter, and a live cluster whose id is held below the root's
  child for the key \<open>k\<close> has a template whose length, in decimal, is \<open>k\<close>.
\<close>

definition len_inv :: "Drain \<Rightarrow> bool" where
  "len_inv d =
     (store_ok (idToCluster d) (clustersCounter d) \<and> 0 \<le> clustersCounter d
      \<and> (\<forall>i \<in> ids_of (rootNode d). i \<le> clustersCounter d)
      \<and> (\<forall>(k, child) \<in> set (keyToChildNode (rootNode d)). \<forall>i \<in> ids_of child.
            \<forall>cl. lookup (idToCluster d) i = Some cl
                  \<longrightarrow> Itoa (int (length (logTemplateTokens cl))) = k))"

text \<open>What a call of \<^verbatim>\<open>Log\<close> does when it merges the line into an existing cluster.\<close>

definition merged :: "Drain \<Rightarrow> string \<Rightarrow> LogCluster \<Rightarrow> Drain \<Rightarrow> bool" where
  "merged d content c d' =
     (\<exists>old. lookup (idToCluster d) (id' c) = Some old
        \<and> clustersCounter d' = clustersCounter d \<and> rootNode d' = rootNode d
        \<and> lookup (idToCluster d') = (lookup (idToCluster d))(id' c \<mapsto> c)
        \<and> createTemplate d (getContentAsTokens d content) (logTemplateTokens old)
            = Inr (logTemplateTokens c)
        \<and> size' c = incr (size' old))"

text \<open>What a call of \<^verbatim>\<open>Log\<close> does when it creates a cluster.\<close>

definition created :: "Drain \<Rightarrow> string \<Rightarrow> LogCluster \<Rightarrow> Drain \<Rightarrow> bool" where
  "created d content c d' =
     (clustersCounter d' = clustersCounter d + 1
      \<and> c = \<lparr>logTemplateTokens = getContentAsTokens d content, id' = clustersCounter d + 1,
              size' = 1\<rparr>
      \<and> lookup (idToCluster d) (id' c) = None
      \<and> lookup (idToCluster d') (id' c) = Some c
      \<and> (\<forall>k x. k \<noteq> id' c \<longrightarrow> lookup (idToCluster d') k = Some x
             \<longrightarrow> lookup (idToCluster d) k = Some x))"

text \<open>
  The fan-out of a tree below the root, for a bound \<open>M\<close> and the wildcard \<open>P\<close>: every
  node has distinct keys and at most \<open>M\<close> children, and at most \<open>M - 1\<close> while it has no
  wildcard child.
\<close>

fun fan_ok :: "int \<Rightarrow> string \<Rightarrow> Node \<Rightarrow> bool" where
  "fan_ok M P (Node ch ids) =
     (distinct (map fst ch)
      \<and> (if P \<in> fst ` set ch then int (length ch) \<le> M else int (length ch) + 1 \<le> M)
      \<and> (\<forall>(k, c) \<in> set ch. fan_ok M P c))"

text \<open>The fan-out invariant of a state: it holds for every child of the root.\<close>

definition root_fan :: "Drain \<Rightarrow> bool" where
  "root_fan d =
     (distinct (map fst (keyToChildNode (rootNode d)))
      \<and> (\<forall>(k, c) \<in> set (keyToChildNode (rootNode d)).
            fan_ok (MaxChildren (config d)) (ParamString (config d)) c))"

text \<open>The best score and candidate so far, while a list of candidates is read.\<close>

fun best_acc ::
  "(LogCluster \<Rightarrow> rat \<times> int) \<Rightarrow> rat \<times> int \<Rightarrow> LogCluster option \<Rightarrow> LogCluster list
     \<Rightarrow> (rat \<times> int) \<times> LogCluster option" where
  "best_acc score sc mc [] = (sc, mc)"
| "best_acc score sc mc (cl # cls) =
     (if spec_better (score cl) sc then best_acc score (score cl) (Some cl) cls
      else best_acc score sc mc cls)"

section \<open>Properties\<close>

subsection \<open>Tokenization\<close>

lemma SplitFrom_nonempty: "SplitFrom cur s sep \<noteq> []"
proof (induction cur s sep rule: SplitFrom.induct)
  case (1 cur s sep)
  show ?case
    using 1 by (subst SplitFrom.simps) auto
qed

lemma getContentAsTokens_nonempty: "getContentAsTokens d content \<noteq> []"
  by (simp add: getContentAsTokens_def Split_def SplitFrom_nonempty)

text \<open>
  C10. Tokenization yields at least one token for every input string. So the branches
  for a token count of zero are not taken when \<^verbatim>\<open>treeSearch\<close> and
  \<^verbatim>\<open>addSeqToPrefixTree\<close> run on the tokens of a line, and the similarity of a template
  with these tokens is never the quotient \<open>0 / 0\<close>.
\<close>

theorem tokenization_never_empty:
  "1 \<le> length (getContentAsTokens d content)
   \<and> treeSearch d rootN (getContentAsTokens d content) simTh includeParams =
       (case map_of (keyToChildNode rootN)
               (Itoa (int (length (getContentAsTokens d content)))) of
          None \<Rightarrow> Inr (None, d)
        | Some curNode \<Rightarrow>
            (case treeSearch_loop d (int (length (getContentAsTokens d content))) 1
                    (getContentAsTokens d content) curNode of
               None \<Rightarrow> Inr (None, d)
             | Some leaf \<Rightarrow>
                 fastMatch d (clusterIDs leaf) (getContentAsTokens d content) simTh
                   includeParams))
   \<and> addSeqToPrefixTree Number d rootN
         \<lparr>logTemplateTokens = getContentAsTokens d content, id' = i, size' = n\<rparr> =
       (case addSeq_loop Number d
               \<lparr>logTemplateTokens = getContentAsTokens d content, id' = i, size' = n\<rparr>
               (int (length (getContentAsTokens d content))) 1 (getContentAsTokens d content)
               (case map_of (keyToChildNode rootN)
                       (Itoa (int (length (getContentAsTokens d content)))) of
                  None \<Rightarrow> createNode
                | Some node \<Rightarrow> node) of
          Inl e \<Rightarrow> Inl e
        | Inr (firstLayerNode, d') \<Rightarrow>
            Inr (Node (AList.update (Itoa (int (length (getContentAsTokens d content))))
                         firstLayerNode (keyToChildNode rootN))
                      (clusterIDs rootN), d'))
   \<and> (\<forall>seq1 paramCount.
         getSeqDistance d seq1 (getContentAsTokens d content) includeParams
           \<noteq> Inr (NaN, paramCount))"
proof -
  have ne: "getContentAsTokens d content \<noteq> []"
    by (rule getContentAsTokens_nonempty)
  then have len: "1 \<le> length (getContentAsTokens d content)"
    by (cases "getContentAsTokens d content") auto
  have ts: "treeSearch d rootN (getContentAsTokens d content) simTh includeParams =
       (case map_of (keyToChildNode rootN)
               (Itoa (int (length (getContentAsTokens d content)))) of
          None \<Rightarrow> Inr (None, d)
        | Some curNode \<Rightarrow>
            (case treeSearch_loop d (int (length (getContentAsTokens d content))) 1
                    (getContentAsTokens d content) curNode of
               None \<Rightarrow> Inr (None, d)
             | Some leaf \<Rightarrow>
                 fastMatch d (clusterIDs leaf) (getContentAsTokens d content) simTh
                   includeParams))"
    using ne by (simp add: treeSearch_def Let_def split: option.splits)
  have ad: "addSeqToPrefixTree Number d rootN
         \<lparr>logTemplateTokens = getContentAsTokens d content, id' = i, size' = n\<rparr> =
       (case addSeq_loop Number d
               \<lparr>logTemplateTokens = getContentAsTokens d content, id' = i, size' = n\<rparr>
               (int (length (getContentAsTokens d content))) 1 (getContentAsTokens d content)
               (case map_of (keyToChildNode rootN)
                       (Itoa (int (length (getContentAsTokens d content)))) of
                  None \<Rightarrow> createNode
                | Some node \<Rightarrow> node) of
          Inl e \<Rightarrow> Inl e
        | Inr (firstLayerNode, d') \<Rightarrow>
            Inr (Node (AList.update (Itoa (int (length (getContentAsTokens d content))))
                         firstLayerNode (keyToChildNode rootN))
                      (clusterIDs rootN), d'))"
    using ne by (simp add: addSeqToPrefixTree_def Let_def)
  have sd: "\<forall>seq1 paramCount.
         getSeqDistance d seq1 (getContentAsTokens d content) includeParams
           \<noteq> Inr (NaN, paramCount)"
    using ne by (auto simp: getSeqDistance_def Let_def split: prod.splits if_splits)
  from len ts ad sd show ?thesis by blast
qed

subsection \<open>The token classifier\<close>

lemma hasNumbers_loop_ex: "hasNumbers_loop Number rs = list_ex (IsNumber Number) rs"
  by (induction rs) auto

text \<open>
  C2, as amended. The classifier is true exactly when some code point of the token is
  in the Unicode category Number, the classification of \<^verbatim>\<open>unicode.IsNumber\<close>. The
  category holds the decimal digits and also other numeric code points.
\<close>

theorem hasNumbers_iff_IsNumber:
  "hasNumbers Number token = list_ex (IsNumber Number) (runes token)"
  by (simp add: hasNumbers_def hasNumbers_loop_ex)

text \<open>
  C2 as stated fails: the token that is the fraction one half (U+00BD, in UTF-8 the bytes
  C2 BD) holds no decimal digit, and the classifier is true for it. The code point lies in
  Latin-1, where the tables beyond Latin-1 are not read.
\<close>

theorem hasNumbers_fraction_counterexample:
  "hasNumbers {} [CHR 0xC2, CHR 0xBD] = True \<and>
   list_ex (IsDigit {}) (runes [CHR 0xC2, CHR 0xBD]) = False"
  by code_simp

text \<open>
  A Roman numeral is classified as well when the table of the category holds it: the
  code point U+2167 is the bytes E2 85 A7.
\<close>

lemma hasNumbers_roman_numeral:
  "0x2167 \<in> Number \<Longrightarrow> hasNumbers Number [CHR 0xE2, CHR 0x85, CHR 0xA7]"
  by (simp add: hasNumbers_def runes.simps IsNumber_def Let_def)

subsection \<open>Concrete runs\<close>

text \<open>
  C6. With the default configuration, training the seven lines of the example yields
  three clusters, which \<^verbatim>\<open>Clusters\<close> lists in the order of their ids.
\<close>

theorem seven_lines_three_clusters:
  "(case New DefaultConfig of
      Inl e \<Rightarrow> Inl e
    | Inr d0 \<Rightarrow>
        (case trainAll Number d0
                [''connected to 10.0.0.1'', ''connected to 10.0.0.2'',
                 ''connected to 10.0.0.3'', ''Hex number 0xDEADBEAF'',
                 ''Hex number 0x10000'', ''user davidoh logged in'',
                 ''user eranr logged in''] of
           Inl e \<Rightarrow> Inl e
         | Inr (clusters, d) \<Rightarrow> Clusters d))
   = Inr [\<lparr>logTemplateTokens = [''connected'', ''to'', ''<*>''], id' = 1, size' = 3\<rparr>,
          \<lparr>logTemplateTokens = [''Hex'', ''number'', ''<*>''], id' = 2, size' = 2\<rparr>,
          \<lparr>logTemplateTokens = [''user'', ''<*>'', ''logged'', ''in''], id' = 3, size' = 2\<rparr>]"
  by code_simp

text \<open>
  C1. The loop of \<^verbatim>\<open>fastMatch\<close> looks every candidate up with \<^verbatim>\<open>Get\<close>, which moves the
  entry to the front of the recency list. After two lines have been trained with
  \<^verbatim>\<open>MaxClusters = 2\<close>, the store lists cluster 1 as the oldest; scoring the tokens of
  \<^verbatim>\<open>a p q\<close> against the candidate 1 selects no cluster and leaves cluster 2 as the oldest.
\<close>

theorem fastMatch_changes_recency:
  "(case New (DefaultConfig\<lparr>MaxClusters := 2\<rparr>) of
      Inl e \<Rightarrow> None
    | Inr d0 \<Rightarrow>
        (case trainAll {} d0 [''a x y'', ''b y''] of
           Inl e \<Rightarrow> None
         | Inr (clusters, d) \<Rightarrow>
             (case fastMatch d [1] [''a'', ''p'', ''q''] (4 / 10) False of
                Inl e \<Rightarrow> None
              | Inr (r, d') \<Rightarrow>
                  Some (r, map_option LRU_Keys (cache (idToCluster d)),
                           map_option LRU_Keys (cache (idToCluster d'))))))
   = Some (None, Some [1, 2], Some [2, 1])"
  by code_simp

text \<open>
  The effect on eviction: training \<^verbatim>\<open>a p q\<close> as the third line evicts cluster 2, the one
  used last, and keeps cluster 1.
\<close>

lemma scoring_decides_eviction:
  "(case New (DefaultConfig\<lparr>MaxClusters := 2\<rparr>) of
      Inl e \<Rightarrow> Inl e
    | Inr d0 \<Rightarrow>
        (case trainAll {} d0 [''a x y'', ''b y'', ''a p q''] of
           Inl e \<Rightarrow> Inl e
         | Inr (clusters, d) \<Rightarrow> map_sum id (map id') (Clusters d)))
   = Inr [3, 1]"
  by code_simp

subsection \<open>The cluster store\<close>

lemma same_entries_refl: "same_entries c c"
  by (simp add: same_entries_def split: option.splits)

lemma same_entries_trans: "same_entries a b \<Longrightarrow> same_entries b c \<Longrightarrow> same_entries a c"
  by (auto simp: same_entries_def split: option.splits)

lemma map_of_move_front:
  "map_of l k = Some v \<Longrightarrow> map_of ((k, v) # remove1 (k, v) l) = map_of l"
proof (induction l)
  case Nil
  then show ?case by simp
next
  case (Cons e l)
  obtain a b where e: "e = (a, b)" by (cases e)
  show ?case
  proof (cases "a = k")
    case True
    then show ?thesis using Cons.prems e by auto
  next
    case False
    then have "map_of l k = Some v" using Cons.prems e by simp
    then have ih: "map_of ((k, v) # remove1 (k, v) l) = map_of l" by (rule Cons.IH)
    have "map_of ((k, v) # remove1 (k, v) (e # l)) = (map_of ((a, b) # remove1 (k, v) l))(k \<mapsto> v)"
      using False e by simp
    also have "\<dots> = ((map_of (remove1 (k, v) l))(k \<mapsto> v))(a \<mapsto> b)"
      using False by (simp add: fun_upd_twist)
    also have "\<dots> = (map_of l)(a \<mapsto> b)" using ih by simp
    finally show ?thesis using e by simp
  qed
qed

lemma LRU_Get_fst: "fst (LRU_Get key l) = LRU_Peek key l"
  by (simp add: LRU_Get_def LRU_Peek_def split: option.splits)

lemma LRU_Get_Peek: "LRU_Peek k (snd (LRU_Get key l)) = LRU_Peek k l"
  using map_of_move_front [of "evictList l" key]
  by (auto simp: LRU_Get_def LRU_Peek_def split: option.splits)

lemma LRU_Get_mset: "mset (evictList (snd (LRU_Get key l))) = mset (evictList l)"
  by (auto simp: LRU_Get_def split: option.splits dest: map_of_SomeD)

lemma LRU_Get_size: "lru_size (snd (LRU_Get key l)) = lru_size l"
  by (auto simp: LRU_Get_def split: option.splits)

lemma mset_distinct_keys:
  "mset xs = mset ys \<Longrightarrow> distinct (map fst xs) = distinct (map fst ys)"
proof -
  assume "mset xs = mset ys"
  then have "mset (map fst xs) = mset (map fst ys)" by (metis mset_map)
  then show ?thesis by (rule mset_eq_imp_distinct_iff)
qed

lemma cache_Get_Inl: "cache_Get key c = Inl e \<Longrightarrow> cache c = None \<and> e = NilDereference"
  by (auto simp: cache_Get_def split: option.splits)

lemma cache_Get_Inr:
  assumes "cache_Get key c = Inr (r, c')"
  shows "r = lookup c key" and "lookup c' = lookup c" and "store_ok c n \<Longrightarrow> store_ok c' n"
    and "cache c' \<noteq> None" and "cache c \<noteq> None" and "same_entries c c'"
proof -
  from assms obtain l where l: "cache c = Some l" "r = fst (LRU_Get key l)"
      "c' = c\<lparr>cache := Some (snd (LRU_Get key l))\<rparr>"
    by (auto simp: cache_Get_def split: option.splits)
  show "r = lookup c key" using l by (simp add: lookup_def LRU_Get_fst)
  show "lookup c' = lookup c" using l by (auto simp: lookup_def LRU_Get_Peek)
  show "cache c' \<noteq> None" "cache c \<noteq> None" using l by auto
  show "same_entries c c'" using l by (simp add: same_entries_def LRU_Get_mset LRU_Get_size)
  assume ok: "store_ok c n"
  have m: "mset (evictList (snd (LRU_Get key l))) = mset (evictList l)" by (rule LRU_Get_mset)
  then have s: "set (evictList (snd (LRU_Get key l))) = set (evictList l)" by (rule mset_eq_setD)
  show "store_ok c' n"
    using ok l s mset_distinct_keys [OF m] by (simp add: store_ok_def LRU_Get_size)
qed

lemma store_ok_lookup:
  "store_ok c n \<Longrightarrow> lookup c k = Some v \<Longrightarrow> id' v = k \<and> 1 \<le> k \<and> k \<le> n"
  by (auto simp: lookup_def LRU_Peek_def store_ok_def split: option.splits dest!: map_of_SomeD)

lemma cache_Set_Inl: "cache_Set key v c = Inl e \<Longrightarrow> cache c = None \<and> e = NilDereference"
  by (auto simp: cache_Set_def split: option.splits)

lemma cache_Set_Inr:
  assumes "cache_Set key v c = Inr c'" and ok: "store_ok c n"
    and fresh: "lookup c key = None" and idv: "id' v = key" and k1: "1 \<le> key" and kn: "key \<le> n'"
    and nn: "n \<le> n'"
  shows "store_ok c' n'" and "lookup c' key = Some v"
    and "\<And>k x. lookup c' k = Some x \<Longrightarrow> k \<noteq> key \<Longrightarrow> lookup c k = Some x"
    and "cache c' \<noteq> None"
proof -
  from assms(1) obtain l where l: "cache c = Some l" "c' = c\<lparr>cache := Some (LRU_Add key v l)\<rparr>"
    by (auto simp: cache_Set_def split: option.splits)
  have none: "map_of (evictList l) key = None" using fresh l by (simp add: lookup_def LRU_Peek_def)
  then have notin: "key \<notin> fst ` set (evictList l)" by (simp add: map_of_eq_None_iff)
  define L where "L = (key, v) # evictList l"
  have dl: "distinct (map fst (evictList l))" and sz: "1 \<le> lru_size l"
    and al: "\<forall>(k, x) \<in> set (evictList l). id' x = k \<and> 1 \<le> k \<and> k \<le> n"
    using ok l by (auto simp: store_ok_def)
  have dL: "distinct (map fst L)" using dl notin by (simp add: L_def)
  have aL: "\<forall>(k, x) \<in> set L. id' x = k \<and> 1 \<le> k \<and> k \<le> n'"
    using al idv k1 kn nn by (auto simp: L_def)
  define L' where "L' = (if int (length L) > lru_size l then butlast L else L)"
  have add: "LRU_Add key v l = l\<lparr>evictList := L'\<rparr>"
    using none by (simp add: LRU_Add_def L_def L'_def Let_def)
  have sub: "set L' \<subseteq> set L" by (auto simp: L'_def dest: in_set_butlastD)
  have dL': "distinct (map fst L')"
    using dL by (auto simp: L'_def map_butlast distinct_butlast)
  have hd: "(key, v) \<in> set L'"
  proof (cases "int (length L) > lru_size l")
    case True
    then have "evictList l \<noteq> []" using sz by (auto simp: L_def)
    then show ?thesis using True by (simp add: L'_def L_def)
  next
    case False
    then show ?thesis by (simp add: L'_def L_def)
  qed
  show "store_ok c' n'"
    using l add dL' aL sub sz by (auto simp: store_ok_def)
  show "lookup c' key = Some v"
    using l add dL' hd by (simp add: lookup_def LRU_Peek_def)
  show "cache c' \<noteq> None" using l by simp
  fix k x
  assume "lookup c' k = Some x" "k \<noteq> key"
  then have "(k, x) \<in> set L'" using l add by (auto simp: lookup_def LRU_Peek_def dest: map_of_SomeD)
  then have "(k, x) \<in> set (evictList l)" using sub \<open>k \<noteq> key\<close> by (auto simp: L_def)
  then show "lookup c k = Some x" using l dl by (simp add: lookup_def LRU_Peek_def)
qed

lemma map_of_write:
  "map_of (map (\<lambda>(k, v). if k = i then (k, c) else (k, v)) l) k =
     (if k = i then (case map_of l k of None \<Rightarrow> None | Some x \<Rightarrow> Some c) else map_of l k)"
  by (induction l) (auto split: option.splits)

lemma keys_write: "map fst (map (\<lambda>(k, v). if k = i then (k, c) else (k, v)) l) = map fst l"
  by (induction l) auto

lemma set_write:
  "(k, x) \<in> set (map (\<lambda>(k, v). if k = i then (k, c) else (k, v)) l)
     \<Longrightarrow> (k = i \<and> x = c) \<or> (k, x) \<in> set l"
  by (induction l) (auto split: if_splits)

lemma cache_write_lookup:
  assumes ok: "store_ok c n" and old: "lookup c (id' cl) = Some old"
  shows "lookup (cache_write cl c) = (lookup c)(id' cl \<mapsto> cl)"
    and "store_ok (cache_write cl c) n"
    and "cache (cache_write cl c) \<noteq> None"
proof -
  from old obtain l where l: "cache c = Some l" by (auto simp: lookup_def split: option.splits)
  define L where "L = map (\<lambda>(k, v). if k = id' cl then (k, cl) else (k, v)) (evictList l)"
  have w: "cache_write cl c = c\<lparr>cache := Some (l\<lparr>evictList := L\<rparr>)\<rparr>"
    using l by (simp add: cache_write_def L_def)
  have keys: "map fst L = map fst (evictList l)"
    unfolding L_def by (rule keys_write)
  have dl: "distinct (map fst (evictList l))" and sz: "1 \<le> lru_size l"
    and al: "\<forall>(k, x) \<in> set (evictList l). id' x = k \<and> 1 \<le> k \<and> k \<le> n"
    using ok l by (auto simp: store_ok_def)
  have rng: "1 \<le> id' cl \<and> id' cl \<le> n" using store_ok_lookup [OF ok old] by simp
  show "cache (cache_write cl c) \<noteq> None" using w by simp
  have aL: "\<forall>(k, x) \<in> set L. id' x = k \<and> 1 \<le> k \<and> k \<le> n"
    using al rng set_write [of _ _ "id' cl" cl "evictList l"] unfolding L_def by blast
  show "store_ok (cache_write cl c) n"
    unfolding w using dl sz aL keys by (simp add: store_ok_def)
  have m: "map_of (evictList l) (id' cl) = Some old"
    using old l by (simp add: lookup_def LRU_Peek_def)
  show "lookup (cache_write cl c) = (lookup c)(id' cl \<mapsto> cl)"
  proof
    fix k
    show "lookup (cache_write cl c) k = ((lookup c)(id' cl \<mapsto> cl)) k"
      unfolding w using l m by (simp add: lookup_def LRU_Peek_def L_def map_of_write)
  qed
qed

subsection \<open>Loops of the search and of the insertion\<close>

lemma decval_FormatNat: "decval (FormatNat n) = n"
proof (induction n rule: FormatNat.induct)
  case (1 n)
  show ?case
  proof (cases "n < 10")
    case True
    then show ?thesis by (subst FormatNat.simps) (simp add: decval_def)
  next
    case False
    have m: "(48 + n mod 10) mod 256 = 48 + n mod 10"
      by (rule mod_less) (simp add: less_Suc_eq_le [symmetric] pos_mod_bound)
    have "decval (FormatNat n) = decval (FormatNat (n div 10) @ [char_of (48 + n mod 10)])"
      using False by (subst FormatNat.simps) simp
    also have "\<dots> = decval (FormatNat (n div 10)) * 10 + n mod 10"
      by (simp add: decval_def m)
    also have "\<dots> = n" using 1 False by simp
    finally show ?thesis .
  qed
qed

lemma Itoa_inj: "0 \<le> a \<Longrightarrow> 0 \<le> b \<Longrightarrow> Itoa a = Itoa b \<Longrightarrow> a = b"
proof -
  assume a: "0 \<le> a" and b: "0 \<le> b" and e: "Itoa a = Itoa b"
  then have "FormatNat (nat a) = FormatNat (nat b)" by (simp add: Itoa_def)
  then have "decval (FormatNat (nat a)) = decval (FormatNat (nat b))" by simp
  then have "nat a = nat b" by (simp add: decval_FormatNat)
  then show "a = b" using a b by simp
qed

lemma touch_rel_refl: "touch_rel d d"
  by (simp add: touch_rel_def same_entries_refl)

lemma touch_rel_trans:
  assumes "touch_rel d d1" and "touch_rel d1 d2"
  shows "touch_rel d d2"
proof -
  have "d2 = d\<lparr>idToCluster := idToCluster d2\<rparr>"
    using assms unfolding touch_rel_def
    by (metis (no_types, lifting) Drain.surjective Drain.update_convs(3))
  moreover have "same_entries (idToCluster d) (idToCluster d2)"
    using assms same_entries_trans unfolding touch_rel_def by blast
  ultimately show ?thesis using assms unfolding touch_rel_def by auto
qed

lemma touch_rel_Get:
  "cache_Get key (idToCluster d) = Inr (r, c) \<Longrightarrow> touch_rel d (d\<lparr>idToCluster := c\<rparr>)"
  using cache_Get_Inr [of key "idToCluster d" r c]
  by (auto simp: touch_rel_def)

lemma touch_rel_fields:
  "touch_rel d d' \<Longrightarrow> config d' = config d \<and> rootNode d' = rootNode d
     \<and> clustersCounter d' = clustersCounter d"
  unfolding touch_rel_def by (metis Drain.select_convs(1,2,4) Drain.surjective Drain.update_convs(3))

lemma fastMatch_loop_touch:
  "fastMatch_loop d tokens ip ids best = Inr (best', d') \<Longrightarrow> touch_rel d d'"
proof (induction ids arbitrary: d best)
  case Nil
  then show ?case by (simp add: touch_rel_refl)
next
  case (Cons i ids)
  obtain ms mp mc where best: "best = (ms, mp, mc)" by (cases best)
  from Cons.prems obtain r c where g: "cache_Get i (idToCluster d) = Inr (r, c)"
    unfolding best by (auto split: sum.splits)
  have t: "touch_rel d (d\<lparr>idToCluster := c\<rparr>)" using g by (rule touch_rel_Get)
  from Cons.prems g obtain b where "fastMatch_loop (d\<lparr>idToCluster := c\<rparr>) tokens ip ids b = Inr (best', d')"
    unfolding best by (auto split: sum.splits option.splits if_splits)
  then have "touch_rel (d\<lparr>idToCluster := c\<rparr>) d'" by (rule Cons.IH)
  with t show ?case by (rule touch_rel_trans)
qed

lemma fastMatch_loop_best:
  "fastMatch_loop d tokens ip ids best = Inr (best', d')
     \<Longrightarrow> snd (snd best') = Some cl
     \<Longrightarrow> snd (snd best) = Some cl \<or> (\<exists>i \<in> set ids. lookup (idToCluster d) i = Some cl)"
proof (induction ids arbitrary: d best)
  case Nil
  then show ?case by simp
next
  case (Cons i ids)
  obtain ms mp mc where best: "best = (ms, mp, mc)" by (cases best)
  from Cons.prems obtain r c where g: "cache_Get i (idToCluster d) = Inr (r, c)"
    unfolding best by (auto split: sum.splits)
  have r: "r = lookup (idToCluster d) i" and l: "lookup c = lookup (idToCluster d)"
    using cache_Get_Inr [OF g] by auto
  from Cons.prems g obtain b where b: "fastMatch_loop (d\<lparr>idToCluster := c\<rparr>) tokens ip ids b = Inr (best', d')"
     and bb: "snd (snd b) = mc \<or> snd (snd b) = r"
    unfolding best by (auto split: sum.splits option.splits if_splits)
  from Cons.IH [OF b Cons.prems(2)] l
  have "snd (snd b) = Some cl \<or> (\<exists>i \<in> set ids. lookup (idToCluster d) i = Some cl)" by simp
  then show ?case using bb r best by auto
qed

lemma getSeqDistance_ok:
  "length seq1 = length seq2 \<Longrightarrow> \<exists>r. getSeqDistance d seq1 seq2 ip = Inr r"
  by (simp add: getSeqDistance_def Let_def split: prod.splits)

lemma fastMatch_loop_Inl:
  assumes "fastMatch_loop d tokens ip ids best = Inl e"
    and "\<forall>i \<in> set ids. \<forall>cl. lookup (idToCluster d) i = Some cl
           \<longrightarrow> length (logTemplateTokens cl) = length tokens"
  shows "e = NilDereference \<and> cache (idToCluster d) = None"
  using assms
proof (induction ids arbitrary: d best)
  case Nil
  then show ?case by simp
next
  case (Cons i ids)
  obtain ms mp mc where best: "best = (ms, mp, mc)" by (cases best)
  show ?case
  proof (cases "cache_Get i (idToCluster d)")
    case (Inl e')
    then show ?thesis using Cons.prems(1) cache_Get_Inl [OF Inl] unfolding best by simp
  next
    case (Inr p)
    obtain r c where p: "p = (r, c)" by (cases p)
    have g: "cache_Get i (idToCluster d) = Inr (r, c)" using Inr p by simp
    have r: "r = lookup (idToCluster d) i" and l: "lookup c = lookup (idToCluster d)"
      and nn: "cache (idToCluster d) \<noteq> None"
      using cache_Get_Inr [OF g] by auto
    have hyp: "\<forall>i \<in> set ids. \<forall>cl. lookup (idToCluster (d\<lparr>idToCluster := c\<rparr>)) i = Some cl
           \<longrightarrow> length (logTemplateTokens cl) = length tokens"
      using Cons.prems(2) l by simp
    have nd: "\<And>cl. r = Some cl \<Longrightarrow> \<exists>x. getSeqDistance d (logTemplateTokens cl) tokens ip = Inr x"
      using Cons.prems(2) r by (intro getSeqDistance_ok) simp
    from Cons.prems(1) g nd obtain b where "fastMatch_loop (d\<lparr>idToCluster := c\<rparr>) tokens ip ids b = Inl e"
      unfolding best by (fastforce split: sum.splits option.splits if_splits)
    from Cons.IH [OF this hyp] have "cache c = None" by simp
    then show ?thesis using cache_Get_Inr(4) [OF g] by simp
  qed
qed

lemma cleanup_loop_Inl:
  "cleanup_loop d ids = Inl e \<Longrightarrow> e = NilDereference \<and> cache (idToCluster d) = None"
proof (induction ids arbitrary: d)
  case Nil
  then show ?case by simp
next
  case (Cons i ids)
  show ?case
  proof (cases "cache_Get i (idToCluster d)")
    case (Inl e')
    then show ?thesis using Cons.prems cache_Get_Inl [OF Inl] by simp
  next
    case (Inr p)
    obtain r c where p: "p = (r, c)" by (cases p)
    have g: "cache_Get i (idToCluster d) = Inr (r, c)" using Inr p by simp
    from Cons.prems g have "cleanup_loop (d\<lparr>idToCluster := c\<rparr>) ids = Inl e"
      by (auto split: sum.splits)
    from Cons.IH [OF this] have "cache c = None" by simp
    then show ?thesis using cache_Get_Inr(4) [OF g] by simp
  qed
qed

lemma cleanup_loop_Inr:
  "cleanup_loop d ids = Inr (new, d')
     \<Longrightarrow> touch_rel d d' \<and> new = filter (\<lambda>i. lookup (idToCluster d) i \<noteq> None) ids"
proof (induction ids arbitrary: d new)
  case Nil
  then show ?case by (simp add: touch_rel_refl)
next
  case (Cons i ids)
  from Cons.prems obtain r c where g: "cache_Get i (idToCluster d) = Inr (r, c)"
    by (auto split: sum.splits)
  have r: "r = lookup (idToCluster d) i" and l: "lookup c = lookup (idToCluster d)"
    using cache_Get_Inr [OF g] by auto
  have t: "touch_rel d (d\<lparr>idToCluster := c\<rparr>)" using g by (rule touch_rel_Get)
  from Cons.prems g obtain new0 where c0: "cleanup_loop (d\<lparr>idToCluster := c\<rparr>) ids = Inr (new0, d')"
     and n: "new = (if r \<noteq> None then i # new0 else new0)"
    by (auto split: sum.splits)
  from Cons.IH [OF c0] have t2: "touch_rel (d\<lparr>idToCluster := c\<rparr>) d'"
     and n0: "new0 = filter (\<lambda>i. lookup (idToCluster d) i \<noteq> None) ids"
    using l by auto
  show ?case using touch_rel_trans [OF t t2] n n0 r by auto
qed

lemma ids_of_child: "(k, c) \<in> set (keyToChildNode n) \<Longrightarrow> ids_of c \<subseteq> ids_of n"
  by (cases n) auto

lemma ids_of_own: "set (clusterIDs n) \<subseteq> ids_of n"
  by (cases n) auto

lemma treeSearch_loop_ids:
  "treeSearch_loop d tc depth tokens cur = Some leaf \<Longrightarrow> set (clusterIDs leaf) \<subseteq> ids_of cur"
proof (induction tokens arbitrary: depth cur)
  case Nil
  then show ?case using ids_of_own by simp
next
  case (Cons t ts)
  show ?case
  proof (cases "depth \<ge> maxNodeDepth (config d) \<or> depth = tc")
    case True
    then have "leaf = cur" using Cons.prems by (auto split: if_splits)
    then show ?thesis using ids_of_own by simp
  next
    case False
    then obtain k nxt where m: "map_of (keyToChildNode cur) k = Some nxt"
        and r: "treeSearch_loop d tc (depth + 1) ts nxt = Some leaf"
      using Cons.prems by (auto split: option.splits)
    have "ids_of nxt \<subseteq> ids_of cur" using m by (intro ids_of_child [of k]) (rule map_of_SomeD)
    then show ?thesis using Cons.IH [OF r] by blast
  qed
qed

lemma set_update_subset: "set (AList.update k v al) \<subseteq> insert (k, v) (set al)"
  by (induction al) auto

lemma ids_of_update:
  "ids_of (Node (AList.update k c ch) ids) \<subseteq> ids_of (Node ch ids) \<union> ids_of c"
  using set_update_subset [of k c ch] by fastforce

lemma addSeq_step_child:
  "addSeq_step N d token cur = Inr (key, child)
     \<Longrightarrow> (child = createNode \<and> map_of (keyToChildNode cur) key = None)
         \<or> map_of (keyToChildNode cur) key = Some child"
  by (auto simp: addSeq_step_def Let_def split: option.splits if_splits)

lemma addSeq_loop_Inr:
  "addSeq_loop N d cl tc depth tokens cur = Inr (cur', d')
     \<Longrightarrow> touch_rel d d' \<and> ids_of cur' \<subseteq> ids_of cur \<union> {id' cl}"
proof (induction tokens arbitrary: depth cur cur')
  case Nil
  then show ?case by (auto simp: touch_rel_refl)
next
  case (Cons t ts)
  show ?case
  proof (cases "depth \<ge> maxNodeDepth (config d) \<or> depth \<ge> tc")
    case True
    then obtain new where c: "cleanup_loop d (clusterIDs cur) = Inr (new, d')"
       and cur': "cur' = Node (keyToChildNode cur) (new @ [id' cl])"
      using Cons.prems by (auto split: sum.splits)
    from cleanup_loop_Inr [OF c] show ?thesis unfolding cur' by (cases cur) auto
  next
    case False
    then obtain key child child' where s: "addSeq_step N d t cur = Inr (key, child)"
       and r: "addSeq_loop N d cl tc (depth + 1) ts child = Inr (child', d')"
       and cur': "cur' = Node (AList.update key child' (keyToChildNode cur)) (clusterIDs cur)"
      using Cons.prems by (auto split: sum.splits)
    have "ids_of child \<subseteq> ids_of cur"
      using addSeq_step_child [OF s] ids_of_child [of key child cur]
      by (auto simp: createNode_def dest: map_of_SomeD)
    moreover have "ids_of cur' \<subseteq> ids_of cur \<union> ids_of child'"
      unfolding cur' using ids_of_update [of key child' "keyToChildNode cur" "clusterIDs cur"]
      by (cases cur) auto
    ultimately show ?thesis using Cons.IH [OF r] by blast
  qed
qed

subsection \<open>One call of \<^verbatim>\<open>Log\<close>\<close>

lemma fastMatch_Inr:
  assumes "fastMatch d ids tokens th ip = Inr (r, d1)"
  shows "touch_rel d d1" and "r = Some m \<Longrightarrow> \<exists>i \<in> set ids. lookup (idToCluster d) i = Some m"
proof -
  from assms obtain best' where l: "fastMatch_loop d tokens ip ids (F64 (- 1), - 1, None) = Inr (best', d1)"
     and r: "r = None \<or> r = snd (snd best')"
    by (auto simp: fastMatch_def split: sum.splits prod.splits if_splits)
  show "touch_rel d d1" using l by (rule fastMatch_loop_touch)
  assume "r = Some m"
  then have "snd (snd best') = Some m" using r by auto
  from fastMatch_loop_best [OF l this] show "\<exists>i \<in> set ids. lookup (idToCluster d) i = Some m"
    by simp
qed

lemma fastMatch_Inl:
  assumes "fastMatch d ids tokens th ip = Inl e"
    and "\<forall>i \<in> set ids. \<forall>cl. lookup (idToCluster d) i = Some cl
           \<longrightarrow> length (logTemplateTokens cl) = length tokens"
  shows "e = NilDereference \<and> cache (idToCluster d) = None"
proof -
  from assms(1) have "fastMatch_loop d tokens ip ids (F64 (- 1), - 1, None) = Inl e"
    by (auto simp: fastMatch_def split: sum.splits prod.splits)
  then show ?thesis using assms(2) by (rule fastMatch_loop_Inl)
qed

lemma leaf_lengths:
  assumes inv: "len_inv d"
    and m: "map_of (keyToChildNode (rootNode d)) (Itoa (int (length tokens))) = Some curNode"
    and l: "treeSearch_loop d tc depth tokens curNode = Some leaf"
  shows "\<forall>i \<in> set (clusterIDs leaf). \<forall>cl. lookup (idToCluster d) i = Some cl
           \<longrightarrow> length (logTemplateTokens cl) = length tokens"
proof (intro ballI allI impI)
  fix i cl
  assume i: "i \<in> set (clusterIDs leaf)" and c: "lookup (idToCluster d) i = Some cl"
  have "i \<in> ids_of curNode" using treeSearch_loop_ids [OF l] i by blast
  moreover have "(Itoa (int (length tokens)), curNode) \<in> set (keyToChildNode (rootNode d))"
    using m by (rule map_of_SomeD)
  ultimately have "Itoa (int (length (logTemplateTokens cl))) = Itoa (int (length tokens))"
    using inv c unfolding len_inv_def by blast
  then have "int (length (logTemplateTokens cl)) = int (length tokens)"
    by (intro Itoa_inj) simp_all
  then show "length (logTemplateTokens cl) = length tokens" by simp
qed

lemma treeSearch_Inr:
  assumes inv: "len_inv d" and ne: "tokens \<noteq> []"
    and t: "treeSearch d (rootNode d) tokens th ip = Inr (r, d1)"
  shows "touch_rel d d1"
    and "r = Some m \<Longrightarrow> lookup (idToCluster d) (id' m) = Some m
           \<and> length (logTemplateTokens m) = length tokens"
proof -
  show "touch_rel d d1"
    using t ne fastMatch_Inr(1)
    by (auto simp: treeSearch_def Let_def touch_rel_refl split: option.splits)
  assume r: "r = Some m"
  with t ne obtain curNode leaf where
      m: "map_of (keyToChildNode (rootNode d)) (Itoa (int (length tokens))) = Some curNode"
      and l: "treeSearch_loop d (int (length tokens)) 1 tokens curNode = Some leaf"
      and f: "fastMatch d (clusterIDs leaf) tokens th ip = Inr (Some m, d1)"
    by (auto simp: treeSearch_def Let_def split: option.splits)
  from fastMatch_Inr(2) [OF f] obtain i where i: "i \<in> set (clusterIDs leaf)"
      and li: "lookup (idToCluster d) i = Some m" by auto
  have "store_ok (idToCluster d) (clustersCounter d)" using inv by (simp add: len_inv_def)
  from store_ok_lookup [OF this li] have "id' m = i" by simp
  moreover have "length (logTemplateTokens m) = length tokens"
    using leaf_lengths [OF inv m l] i li by blast
  ultimately show "lookup (idToCluster d) (id' m) = Some m
           \<and> length (logTemplateTokens m) = length tokens" using li by simp
qed

lemma treeSearch_Inl:
  assumes inv: "len_inv d" and ne: "tokens \<noteq> []"
    and t: "treeSearch d (rootNode d) tokens th ip = Inl e"
  shows "e = NilDereference \<and> cache (idToCluster d) = None"
proof -
  from t ne obtain curNode leaf where
      m: "map_of (keyToChildNode (rootNode d)) (Itoa (int (length tokens))) = Some curNode"
      and l: "treeSearch_loop d (int (length tokens)) 1 tokens curNode = Some leaf"
      and f: "fastMatch d (clusterIDs leaf) tokens th ip = Inl e"
    by (auto simp: treeSearch_def Let_def split: option.splits)
  from fastMatch_Inl [OF f leaf_lengths [OF inv m l]] show ?thesis .
qed

lemma addSeq_step_Inl: "addSeq_step N d token cur = Inl e \<Longrightarrow> e = NilDereference"
  by (auto simp: addSeq_step_def Let_def split: option.splits if_splits)

lemma addSeq_loop_Inl: "addSeq_loop N d cl tc depth tokens cur = Inl e \<Longrightarrow> e = NilDereference"
proof (induction tokens arbitrary: depth cur)
  case Nil
  then show ?case by simp
next
  case (Cons t ts)
  then show ?case
    by (auto split: if_splits sum.splits dest: cleanup_loop_Inl addSeq_step_Inl)
qed

lemma addSeqToPrefixTree_Inl:
  "addSeqToPrefixTree N d rootN cl = Inl e \<Longrightarrow> e = NilDereference"
  by (auto simp: addSeqToPrefixTree_def Let_def split: if_splits sum.splits dest: addSeq_loop_Inl)

lemma createTemplate_Inr:
  "createTemplate d seq1 seq2 = Inr t \<Longrightarrow> length t = length seq2 \<and> length seq1 = length seq2"
  by (auto simp: createTemplate_def split: if_splits)

lemma createTemplate_config: "config d1 = config d \<Longrightarrow> createTemplate d1 = createTemplate d"
  by (intro ext) (auto simp: createTemplate_def)

lemma incr_lt: "x < MaxInt \<Longrightarrow> incr x = x + 1"
  by (simp add: incr_def)

lemma Log_merge:
  assumes inv: "len_inv d"
    and t: "treeSearch d (rootNode d) (getContentAsTokens d content) (SimTh (config d)) False
              = Inr (Some m, d1)"
  shows "\<exists>c d'. Log N d content = Inr (c, d')"
    and "Log N d content = Inr (c, d') \<Longrightarrow> len_inv d' \<and> config d' = config d \<and> merged d content c d'
           \<and> (cache (idToCluster d') \<noteq> None)"
proof -
  define tokens where "tokens = getContentAsTokens d content"
  have ne: "tokens \<noteq> []" unfolding tokens_def by (rule getContentAsTokens_nonempty)
  have t': "treeSearch d (rootNode d) tokens (SimTh (config d)) False = Inr (Some m, d1)"
    using t by (simp add: tokens_def)
  have tr: "touch_rel d d1" using treeSearch_Inr(1) [OF inv ne t'] .
  have lm: "lookup (idToCluster d) (id' m) = Some m"
    and len: "length (logTemplateTokens m) = length tokens"
    using treeSearch_Inr(2) [OF inv ne t'] by auto
  have f1: "config d1 = config d" "rootNode d1 = rootNode d" "clustersCounter d1 = clustersCounter d"
    using touch_rel_fields [OF tr] by auto
  have ok: "store_ok (idToCluster d) (clustersCounter d)" using inv by (simp add: len_inv_def)
  have ok1: "store_ok (idToCluster d1) (clustersCounter d)" using tr ok by (simp add: touch_rel_def)
  have l1: "lookup (idToCluster d1) = lookup (idToCluster d)" using tr by (simp add: touch_rel_def)
  define newT where "newT = map (\<lambda>(t1, t2). if t1 \<noteq> t2 then ParamString (config d) else t2)
                    (zip tokens (logTemplateTokens m))"
  have ct: "createTemplate d1 tokens (logTemplateTokens m) = Inr newT"
    using len createTemplate_config [OF f1(1)] by (simp add: createTemplate_def newT_def)
  have ct0: "createTemplate d tokens (logTemplateTokens m) = Inr newT"
    using len by (simp add: createTemplate_def newT_def)
  have lnew: "length newT = length tokens" using len by (simp add: newT_def)
  define m' where "m' = m\<lparr>logTemplateTokens := newT, size' := incr (size' m)\<rparr>"
  have idm: "id' m' = id' m" by (simp add: m'_def)
  define cw where "cw = cache_write m' (idToCluster d1)"
  have old1: "lookup (idToCluster d1) (id' m') = Some m" using lm l1 idm by simp
  have lw: "lookup cw = (lookup (idToCluster d1))(id' m' \<mapsto> m')"
    and okw: "store_ok cw (clustersCounter d)" and nnw: "cache cw \<noteq> None"
    using cache_write_lookup [OF ok1 old1] by (auto simp: cw_def)
  obtain l where "cache cw = Some l" using nnw by auto
  then obtain r c' where g: "cache_Get (id' m') cw = Inr (r, c')"
    by (auto simp: cache_Get_def)
  have lc': "lookup c' = lookup cw" and okc': "store_ok c' (clustersCounter d)"
    and nnc': "cache c' \<noteq> None"
    using cache_Get_Inr [OF g] okw by auto
  have L: "Log N d content = Inr (m', d1\<lparr>idToCluster := c'\<rparr>)"
    using t' ct g by (simp add: Log_def Let_def tokens_def [symmetric] m'_def cw_def)
  show "\<exists>c d'. Log N d content = Inr (c, d')" using L by blast
  assume "Log N d content = Inr (c, d')"
  then have c: "c = m'" and d': "d' = d1\<lparr>idToCluster := c'\<rparr>" using L by auto
  have look: "lookup (idToCluster d') = (lookup (idToCluster d))(id' m \<mapsto> m')"
    using lc' lw l1 idm by (simp add: d')
  have mg: "merged d content c d'"
    unfolding merged_def using lm f1 look ct0 c idm
    by (auto simp: d' tokens_def m'_def)
  have tree: "\<forall>(k, child) \<in> set (keyToChildNode (rootNode d')). \<forall>i \<in> ids_of child.
            \<forall>cl. lookup (idToCluster d') i = Some cl
                  \<longrightarrow> Itoa (int (length (logTemplateTokens cl))) = k"
  proof (intro ballI allI impI, clarify)
    fix k child i cl
    assume kc: "(k, child) \<in> set (keyToChildNode (rootNode d'))" and i: "i \<in> ids_of child"
      and lc: "lookup (idToCluster d') i = Some cl"
    have kc0: "(k, child) \<in> set (keyToChildNode (rootNode d))" using kc f1 by (simp add: d')
    have old: "\<forall>cl. lookup (idToCluster d) i = Some cl
                  \<longrightarrow> Itoa (int (length (logTemplateTokens cl))) = k"
      using inv kc0 i unfolding len_inv_def by blast
    show "Itoa (int (length (logTemplateTokens cl))) = k"
    proof (cases "i = id' m")
      case True
      then have "cl = m'" using lc look by simp
      then have "length (logTemplateTokens cl) = length (logTemplateTokens m)"
        using lnew len by (simp add: m'_def)
      then show ?thesis using old True lm by simp
    next
      case False
      then show ?thesis using old lc look by simp
    qed
  qed
  have "len_inv d'"
    unfolding len_inv_def using tree okc' inv f1 by (simp add: d' len_inv_def)
  then show "len_inv d' \<and> config d' = config d \<and> merged d content c d' \<and> (cache (idToCluster d') \<noteq> None)"
    using mg f1 nnc' by (simp add: d')
qed

subsection \<open>Fan-out\<close>

lemma nodes_cases:
  "m \<in> set (nodes n) \<Longrightarrow> m = n \<or> (\<exists>k c. (k, c) \<in> set (keyToChildNode n) \<and> m \<in> set (nodes c))"
  by (cases n) auto

lemma ids_of_nodes: "ids_of n = (\<Union>m \<in> set (nodes n). set (clusterIDs m))"
proof (induction n rule: ids_of.induct)
  case (1 ch ids)
  have "(\<Union>(k, c) \<in> set ch. ids_of c) = (\<Union>(k, c) \<in> set ch. \<Union>m \<in> set (nodes c). set (clusterIDs m))"
    using 1 by (intro SUP_cong refl) auto
  moreover have "(\<Union>m \<in> set (concat (map (\<lambda>(k, c). nodes c) ch)). set (clusterIDs m))
      = (\<Union>(k, c) \<in> set ch. \<Union>m \<in> set (nodes c). set (clusterIDs m))"
    by auto
  ultimately show ?case by simp
qed

lemma fan_ok_nodes:
  "fan_ok M P n \<Longrightarrow> m \<in> set (nodes n)
     \<Longrightarrow> distinct (map fst (keyToChildNode m)) \<and> int (length (keyToChildNode m)) \<le> M"
proof (induction M P n rule: fan_ok.induct)
  case (1 M P ch ids)
  from nodes_cases [OF "1.prems"(2)] show ?case
  proof
    assume "m = Node ch ids"
    then show ?thesis using "1.prems"(1) by (auto split: if_splits)
  next
    assume "\<exists>k c. (k, c) \<in> set (keyToChildNode (Node ch ids)) \<and> m \<in> set (nodes c)"
    then obtain k c where kc: "(k, c) \<in> set ch" and m: "m \<in> set (nodes c)" by auto
    have "fan_ok M P c" using "1.prems"(1) kc by auto
    from "1.IH" [OF kc _ this m] show ?thesis by simp
  qed
qed

lemma fan_ok_createNode: "1 \<le> M \<Longrightarrow> fan_ok M P createNode"
  by (simp add: createNode_def)

lemma update_keys_in:
  "k \<in> fst ` set al \<Longrightarrow> map fst (AList.update k v al) = map fst al"
  by (simp add: update_keys)

lemma update_keys_notin:
  "k \<notin> fst ` set al \<Longrightarrow> map fst (AList.update k v al) = map fst al @ [k]"
  by (simp add: update_keys)

lemma fan_ok_update_old:
  assumes "fan_ok M P (Node ch ids)" and "map_of ch key = Some child" and "fan_ok M P child'"
  shows "fan_ok M P (Node (AList.update key child' ch) ids)"
proof -
  have kin: "key \<in> fst ` set ch" using assms(2) by (metis domI dom_map_of_conv_image_fst)
  have keys: "map fst (AList.update key child' ch) = map fst ch" using kin by (rule update_keys_in)
  have len: "length (AList.update key child' ch) = length ch"
    using keys by (metis length_map)
  have img: "fst ` set (AList.update key child' ch) = fst ` set ch"
    using keys by (metis set_map)
  have ch: "\<forall>(k, c) \<in> set (AList.update key child' ch). fan_ok M P c"
    using assms(1,3) set_update_subset [of key child' ch] by auto
  show ?thesis using assms(1) ch by (simp add: keys len img)
qed

lemma fan_ok_update_new:
  assumes "fan_ok M P (Node ch ids)" and "map_of ch key = None" and "fan_ok M P child'"
    and "if P \<in> fst ` set ch \<or> key = P then int (length ch) + 1 \<le> M
         else int (length ch) + 2 \<le> M"
  shows "fan_ok M P (Node (AList.update key child' ch) ids)"
proof -
  have kin: "key \<notin> fst ` set ch" using assms(2) by (simp add: map_of_eq_None_iff)
  have keys: "map fst (AList.update key child' ch) = map fst ch @ [key]"
    using kin by (rule update_keys_notin)
  have len: "length (AList.update key child' ch) = length ch + 1"
    using keys by (metis length_map length_append_singleton Suc_eq_plus1)
  have img: "fst ` set (AList.update key child' ch) = insert key (fst ` set ch)"
    using keys by (metis set_map set_append list.simps(15) Un_insert_right sup_bot.right_neutral empty_set)
  have ch: "\<forall>(k, c) \<in> set (AList.update key child' ch). fan_ok M P c"
    using assms(1,3) set_update_subset [of key child' ch] by auto
  have d: "distinct (map fst (AList.update key child' ch))"
    using assms(1) by (simp add: distinct_update)
  show ?thesis using assms(4) ch d by (auto simp: len img split: if_splits)
qed

lemma addSeq_step_fan:
  assumes f: "fan_ok (MaxChildren (config d)) (ParamString (config d)) cur"
    and M: "1 \<le> MaxChildren (config d)"
  shows "\<exists>key child. addSeq_step N d t cur = Inr (key, child)
           \<and> fan_ok (MaxChildren (config d)) (ParamString (config d)) child
           \<and> (\<forall>child' ids. fan_ok (MaxChildren (config d)) (ParamString (config d)) child'
                \<longrightarrow> fan_ok (MaxChildren (config d)) (ParamString (config d))
                      (Node (AList.update key child' (keyToChildNode cur)) ids))"
proof -
  obtain ch ids0 where cur: "cur = Node ch ids0" by (cases cur)
  define M' where "M' = MaxChildren (config d)"
  define P where "P = ParamString (config d)"
  have f': "fan_ok M' P (Node ch ids0)" using f cur by (simp add: M'_def P_def)
  have fi: "\<And>ids. fan_ok M' P (Node ch ids)" using f' by simp
  have cn: "fan_ok M' P createNode" using M by (simp add: fan_ok_createNode M'_def)
  have sub: "\<And>k c. map_of ch k = Some c \<Longrightarrow> fan_ok M' P c"
    using f' by (auto dest: map_of_SomeD)
  have Pin: "(P \<in> fst ` set ch) = (map_of ch P \<noteq> None)"
    by (simp add: map_of_eq_None_iff)
  have bound: "if map_of ch P \<noteq> None then int (length ch) \<le> M' else int (length ch) + 1 \<le> M'"
    using f' Pin by (auto split: if_splits)
  have old: "\<And>key child. map_of ch key = Some child \<Longrightarrow>
      fan_ok M' P child \<and> (\<forall>child' ids. fan_ok M' P child' \<longrightarrow> fan_ok M' P (Node (AList.update key child' ch) ids))"
    using sub fan_ok_update_old [OF fi] by blast
  have new: "\<And>key. map_of ch key = None \<Longrightarrow>
       (if map_of ch P \<noteq> None \<or> key = P then int (length ch) + 1 \<le> M' else int (length ch) + 2 \<le> M') \<Longrightarrow>
      fan_ok M' P createNode \<and> (\<forall>child' ids. fan_ok M' P child' \<longrightarrow> fan_ok M' P (Node (AList.update key child' ch) ids))"
    using cn fan_ok_update_new [OF fi] Pin by presburger
  show ?thesis
    unfolding cur addSeq_step_def Let_def M'_def [symmetric] P_def [symmetric] Node.sel
    using old new bound
    by (auto split: option.splits if_splits)
qed

lemma addSeq_loop_fan:
  assumes M: "1 \<le> MaxChildren (config d)"
  shows "fan_ok (MaxChildren (config d)) (ParamString (config d)) cur
     \<Longrightarrow> (\<forall>cur' d'. addSeq_loop N d cl tc depth tokens cur = Inr (cur', d')
            \<longrightarrow> fan_ok (MaxChildren (config d)) (ParamString (config d)) cur')
         \<and> (\<forall>e. addSeq_loop N d cl tc depth tokens cur = Inl e \<longrightarrow> cache (idToCluster d) = None)"
proof (induction tokens arbitrary: depth cur)
  case Nil
  then show ?case by simp
next
  case (Cons t ts)
  show ?case
  proof (cases "depth \<ge> maxNodeDepth (config d) \<or> depth \<ge> tc")
    case True
    have "fan_ok (MaxChildren (config d)) (ParamString (config d)) (Node (keyToChildNode cur) ids)" for ids
      using Cons.prems by (cases cur) simp
    then show ?thesis using True
      by (auto split: sum.splits dest: cleanup_loop_Inl)
  next
    case False
    from addSeq_step_fan [OF Cons.prems M, of N t] obtain key child where
      s: "addSeq_step N d t cur = Inr (key, child)"
      and fc: "fan_ok (MaxChildren (config d)) (ParamString (config d)) child"
      and up: "\<forall>child' ids. fan_ok (MaxChildren (config d)) (ParamString (config d)) child'
                \<longrightarrow> fan_ok (MaxChildren (config d)) (ParamString (config d))
                      (Node (AList.update key child' (keyToChildNode cur)) ids)"
      by blast
    from Cons.IH [OF fc, of "depth + 1"] up show ?thesis using False s
      by (auto split: sum.splits)
  qed
qed

lemma addSeq_loop_leaf:
  assumes "addSeq_loop N d cl tc depth tokens cur = Inr (cur', d')"
    and "id' cl \<notin> ids_of cur" and "lookup (idToCluster d) (id' cl) \<noteq> None"
  shows "\<forall>n \<in> set (nodes cur'). id' cl \<in> set (clusterIDs n)
           \<longrightarrow> (\<forall>j \<in> set (clusterIDs n). lookup (idToCluster d) j \<noteq> None)"
  using assms
proof (induction tokens arbitrary: depth cur cur')
  case Nil
  then have "cur' = cur" by simp
  then show ?case using Nil.prems(2) by (auto simp: ids_of_nodes)
next
  case (Cons t ts)
  show ?case
  proof (cases "depth \<ge> maxNodeDepth (config d) \<or> depth \<ge> tc")
    case True
    then obtain new where c: "cleanup_loop d (clusterIDs cur) = Inr (new, d')"
       and cur': "cur' = Node (keyToChildNode cur) (new @ [id' cl])"
      using Cons.prems by (auto split: sum.splits)
    have new: "new = filter (\<lambda>i. lookup (idToCluster d) i \<noteq> None) (clusterIDs cur)"
      using cleanup_loop_Inr [OF c] by simp
    show ?thesis
    proof (intro ballI impI)
      fix n j
      assume n: "n \<in> set (nodes cur')" and h: "id' cl \<in> set (clusterIDs n)"
        and j: "j \<in> set (clusterIDs n)"
      from nodes_cases [OF n] show "lookup (idToCluster d) j \<noteq> None"
      proof
        assume "n = cur'"
        then show ?thesis using j new Cons.prems(3) by (auto simp: cur')
      next
        assume "\<exists>k c. (k, c) \<in> set (keyToChildNode cur') \<and> n \<in> set (nodes c)"
        then obtain k c where kc: "(k, c) \<in> set (keyToChildNode cur)" and nc: "n \<in> set (nodes c)"
          by (auto simp: cur')
        have "id' cl \<in> ids_of c" using nc h by (auto simp: ids_of_nodes)
        then have "id' cl \<in> ids_of cur" using ids_of_child [OF kc] by blast
        then show ?thesis using Cons.prems(2) by simp
      qed
    qed
  next
    case False
    then obtain key child child' where s: "addSeq_step N d t cur = Inr (key, child)"
       and r: "addSeq_loop N d cl tc (depth + 1) ts child = Inr (child', d')"
       and cur': "cur' = Node (AList.update key child' (keyToChildNode cur)) (clusterIDs cur)"
      using Cons.prems by (auto split: sum.splits)
    have sub: "ids_of child \<subseteq> ids_of cur"
      using addSeq_step_child [OF s] ids_of_child [of key child cur]
      by (auto simp: createNode_def dest: map_of_SomeD)
    then have nc: "id' cl \<notin> ids_of child" using Cons.prems(2) by blast
    note ih = Cons.IH [OF r nc Cons.prems(3)]
    show ?thesis
    proof (intro ballI impI)
      fix n j
      assume n: "n \<in> set (nodes cur')" and h: "id' cl \<in> set (clusterIDs n)"
        and j: "j \<in> set (clusterIDs n)"
      from nodes_cases [OF n] show "lookup (idToCluster d) j \<noteq> None"
      proof
        assume "n = cur'"
        then have "id' cl \<in> ids_of cur" using h ids_of_own [of cur] by (auto simp: cur')
        then show ?thesis using Cons.prems(2) by simp
      next
        assume "\<exists>k c. (k, c) \<in> set (keyToChildNode cur') \<and> n \<in> set (nodes c)"
        then obtain k c where kc: "(k, c) \<in> set (AList.update key child' (keyToChildNode cur))"
          and nc': "n \<in> set (nodes c)"
          by (auto simp: cur')
        from kc set_update_subset [of key child' "keyToChildNode cur"]
        have "c = child' \<or> (k, c) \<in> set (keyToChildNode cur)" by auto
        then show ?thesis
        proof
          assume "c = child'"
          then show ?thesis using ih nc' h j by blast
        next
          assume kc0: "(k, c) \<in> set (keyToChildNode cur)"
          have "id' cl \<in> ids_of c" using nc' h by (auto simp: ids_of_nodes)
          then have "id' cl \<in> ids_of cur" using ids_of_child [OF kc0] by blast
          then show ?thesis using Cons.prems(2) by simp
        qed
      qed
    qed
  qed
qed

subsection \<open>Creating a cluster\<close>

lemma treeSearch_touch:
  "tokens \<noteq> [] \<Longrightarrow> treeSearch d rn tokens th ip = Inr (r, d1) \<Longrightarrow> touch_rel d d1"
  using fastMatch_Inr(1)
  by (auto simp: treeSearch_def Let_def touch_rel_refl split: option.splits)

lemma addSeqToPrefixTree_Inr:
  assumes "addSeqToPrefixTree N d rn cl = Inr (rn', d')" and "logTemplateTokens cl \<noteq> []"
  obtains fl fl' where
    "fl = createNode \<or> (Itoa (int (length (logTemplateTokens cl))), fl) \<in> set (keyToChildNode rn)"
    "addSeq_loop N d cl (int (length (logTemplateTokens cl))) 1 (logTemplateTokens cl) fl = Inr (fl', d')"
    "rn' = Node (AList.update (Itoa (int (length (logTemplateTokens cl)))) fl' (keyToChildNode rn))
                (clusterIDs rn)"
proof -
  define key where "key = Itoa (int (length (logTemplateTokens cl)))"
  define fl where "fl = (case map_of (keyToChildNode rn) key of None \<Rightarrow> createNode | Some n \<Rightarrow> n)"
  have a: "fl = createNode \<or> (key, fl) \<in> set (keyToChildNode rn)"
    by (auto simp: fl_def split: option.splits dest: map_of_SomeD)
  from assms obtain fl' where
    "addSeq_loop N d cl (int (length (logTemplateTokens cl))) 1 (logTemplateTokens cl) fl = Inr (fl', d')"
    "rn' = Node (AList.update key fl' (keyToChildNode rn)) (clusterIDs rn)"
    by (auto simp: addSeqToPrefixTree_def Let_def fl_def key_def split: sum.splits)
  then show ?thesis using a that unfolding key_def by blast
qed

lemma Log_create:
  assumes inv: "len_inv d" and lt: "clustersCounter d < MaxInt"
    and t: "treeSearch d (rootNode d) (getContentAsTokens d content) (SimTh (config d)) False
              = Inr (None, d1)"
    and L: "Log N d content = Inr (c, d')"
  shows "len_inv d' \<and> config d' = config d \<and> created d content c d'
           \<and> cache (idToCluster d') \<noteq> None
           \<and> (\<forall>n \<in> set (nodes (rootNode d')). id' c \<in> set (clusterIDs n)
                \<longrightarrow> (\<forall>j \<in> set (clusterIDs n). lookup (idToCluster d') j \<noteq> None))"
proof -
  define tokens where "tokens = getContentAsTokens d content"
  have ne: "tokens \<noteq> []" unfolding tokens_def by (rule getContentAsTokens_nonempty)
  have t': "treeSearch d (rootNode d) tokens (SimTh (config d)) False = Inr (None, d1)"
    using t by (simp add: tokens_def)
  have tr: "touch_rel d d1" using treeSearch_touch [OF ne t'] .
  have f1: "config d1 = config d" "rootNode d1 = rootNode d" "clustersCounter d1 = clustersCounter d"
    using touch_rel_fields [OF tr] by auto
  have ok: "store_ok (idToCluster d) (clustersCounter d)" using inv by (simp add: len_inv_def)
  have ok1: "store_ok (idToCluster d1) (clustersCounter d)" using tr ok by (simp add: touch_rel_def)
  have l1: "lookup (idToCluster d1) = lookup (idToCluster d)" using tr by (simp add: touch_rel_def)
  define cid where "cid = clustersCounter d + 1"
  have inc: "incr (clustersCounter d1) = cid" using lt f1 by (simp add: incr_lt cid_def)
  define mc where "mc = \<lparr>logTemplateTokens = tokens, id' = cid, size' = 1\<rparr>"
  define root where "root = rootNode d"
  from L obtain cs rn d3 where
      set: "cache_Set cid mc (idToCluster d1) = Inr cs"
      and add: "addSeqToPrefixTree N (d1\<lparr>clustersCounter := cid, idToCluster := cs\<rparr>) root mc
                  = Inr (rn, d3)"
      and c: "c = mc" and d': "d' = d3\<lparr>rootNode := rn\<rparr>"
    using t' inc f1
    by (auto simp: Log_def Let_def tokens_def [symmetric] mc_def root_def split: sum.splits)
  define dX where "dX = d1\<lparr>clustersCounter := cid, idToCluster := cs\<rparr>"
  have fresh1: "lookup (idToCluster d1) cid = None"
  proof (cases "lookup (idToCluster d1) cid")
    case None
    then show ?thesis .
  next
    case (Some x)
    from store_ok_lookup [OF ok1 Some] show ?thesis by (simp add: cid_def)
  qed
  have c0: "0 \<le> clustersCounter d" using inv by (simp add: len_inv_def)
  have okcs: "store_ok cs cid" and lcs: "lookup cs cid = Some mc"
    and others: "\<And>k x. lookup cs k = Some x \<Longrightarrow> k \<noteq> cid \<Longrightarrow> lookup (idToCluster d1) k = Some x"
    and nncs: "cache cs \<noteq> None"
    using cache_Set_Inr [OF set ok1 fresh1, of cid] c0 by (auto simp: mc_def cid_def)
  have mct: "logTemplateTokens mc = tokens" "id' mc = cid" by (simp_all add: mc_def)
  define key where "key = Itoa (int (length tokens))"
  from addSeqToPrefixTree_Inr [OF add [folded dX_def]] ne mct obtain fl fl' where
      fl: "fl = createNode \<or> (key, fl) \<in> set (keyToChildNode root)"
      and loop: "addSeq_loop N dX mc (int (length tokens)) 1 tokens fl = Inr (fl', d3)"
      and rn: "rn = Node (AList.update key fl' (keyToChildNode root)) (clusterIDs root)"
    unfolding key_def by auto
  have tr3: "touch_rel dX d3" and sub3: "ids_of fl' \<subseteq> ids_of fl \<union> {cid}"
    using addSeq_loop_Inr [OF loop] mct by auto
  have fX: "config dX = config d" "clustersCounter dX = cid" "idToCluster dX = cs"
    by (simp_all add: dX_def f1)
  have f3: "config d3 = config d" "clustersCounter d3 = cid"
    using touch_rel_fields [OF tr3] fX by auto
  have l3: "lookup (idToCluster d3) = lookup cs" using tr3 fX by (simp add: touch_rel_def)
  have ok3: "store_ok (idToCluster d3) cid" using tr3 okcs fX by (simp add: touch_rel_def)
  have nn3: "cache (idToCluster d3) \<noteq> None" using tr3 nncs fX by (simp add: touch_rel_def)
  have fd': "rootNode d' = rn" "idToCluster d' = idToCluster d3" "clustersCounter d' = cid"
      "config d' = config d"
    using f3 by (simp_all add: d')
  have bound: "\<forall>i \<in> ids_of root. i \<le> clustersCounter d"
    using inv by (simp add: len_inv_def root_def)
  have flsub: "ids_of fl \<subseteq> ids_of root"
    using fl ids_of_child [of key fl root] by (auto simp: createNode_def)
  have rnsub: "ids_of rn \<subseteq> ids_of root \<union> ids_of fl'"
    unfolding rn using ids_of_update [of key fl' "keyToChildNode root" "clusterIDs root"]
    by (cases root) auto
  have notin: "cid \<notin> ids_of root" using bound by (auto simp: cid_def)
  have lold: "\<And>i x. i \<in> ids_of root \<Longrightarrow> lookup (idToCluster d') i = Some x
                 \<Longrightarrow> lookup (idToCluster d) i = Some x"
  proof -
    fix i x
    assume "i \<in> ids_of root" "lookup (idToCluster d') i = Some x"
    then have "i \<noteq> cid" "lookup cs i = Some x" using notin fd' l3 by auto
    then show "lookup (idToCluster d) i = Some x" using others l1 by simp
  qed
  have ids: "\<forall>i \<in> ids_of (rootNode d'). i \<le> clustersCounter d'"
  proof
    fix i
    assume "i \<in> ids_of (rootNode d')"
    then have "i \<in> ids_of root \<or> i = cid" using rnsub sub3 flsub fd' by blast
    then show "i \<le> clustersCounter d'" using bound fd' by (auto simp: cid_def)
  qed
  have tree: "\<forall>(k, child) \<in> set (keyToChildNode (rootNode d')). \<forall>i \<in> ids_of child.
            \<forall>cl. lookup (idToCluster d') i = Some cl
                  \<longrightarrow> Itoa (int (length (logTemplateTokens cl))) = k"
  proof (intro ballI allI impI, clarify)
    fix k child i cl
    assume kc: "(k, child) \<in> set (keyToChildNode (rootNode d'))" and i: "i \<in> ids_of child"
      and lc: "lookup (idToCluster d') i = Some cl"
    have oldinv: "\<And>k child. (k, child) \<in> set (keyToChildNode root) \<Longrightarrow> i \<in> ids_of child
        \<Longrightarrow> Itoa (int (length (logTemplateTokens cl))) = k"
    proof -
      fix k child
      assume kc0: "(k, child) \<in> set (keyToChildNode root)" and i0: "i \<in> ids_of child"
      have "i \<in> ids_of root" using ids_of_child [OF kc0] i0 by blast
      then have "lookup (idToCluster d) i = Some cl" using lc lold by blast
      then show "Itoa (int (length (logTemplateTokens cl))) = k"
        using inv kc0 i0 unfolding len_inv_def root_def by blast
    qed
    from kc have "(k, child) = (key, fl') \<or> (k, child) \<in> set (keyToChildNode root)"
      using set_update_subset [of key fl' "keyToChildNode root"] by (auto simp: fd' rn)
    then show "Itoa (int (length (logTemplateTokens cl))) = k"
    proof
      assume e: "(k, child) = (key, fl')"
      show ?thesis
      proof (cases "i = cid")
        case True
        then have "cl = mc" using lc lcs l3 fd' by simp
        then show ?thesis using e by (simp add: mc_def key_def)
      next
        case False
        then have ifl: "i \<in> ids_of fl" using i e sub3 by auto
        then have "(key, fl) \<in> set (keyToChildNode root)" using fl by (auto simp: createNode_def)
        from oldinv [OF this ifl] show ?thesis using e by simp
      qed
    next
      assume "(k, child) \<in> set (keyToChildNode root)"
      from oldinv [OF this i] show ?thesis .
    qed
  qed
  have inv': "len_inv d'"
    unfolding len_inv_def using ok3 c0 ids tree fd' by (simp add: cid_def)
  have cr: "created d content c d'"
    unfolding created_def using fd' c lcs l3 fresh1 l1 others
    by (auto simp: mc_def cid_def tokens_def)
  have leaf: "\<forall>n \<in> set (nodes (rootNode d')). id' c \<in> set (clusterIDs n)
                \<longrightarrow> (\<forall>j \<in> set (clusterIDs n). lookup (idToCluster d') j \<noteq> None)"
  proof (intro ballI impI)
    fix n j
    assume n: "n \<in> set (nodes (rootNode d'))" and h: "id' c \<in> set (clusterIDs n)"
      and j: "j \<in> set (clusterIDs n)"
    have hc: "cid \<in> set (clusterIDs n)" using h c mct by simp
    have nfl: "cid \<notin> ids_of fl" using notin flsub by blast
    have lX: "lookup (idToCluster dX) (id' mc) \<noteq> None" using lcs fX mct by simp
    note lf = addSeq_loop_leaf [OF loop _ lX, unfolded mct, OF nfl]
    from nodes_cases [OF n] show "lookup (idToCluster d') j \<noteq> None"
    proof
      assume "n = rootNode d'"
      then have "cid \<in> ids_of root" using hc ids_of_own [of root] by (auto simp: fd' rn)
      then show ?thesis using notin by simp
    next
      assume "\<exists>k c. (k, c) \<in> set (keyToChildNode (rootNode d')) \<and> n \<in> set (nodes c)"
      then obtain k ch where kc: "(k, ch) \<in> set (AList.update key fl' (keyToChildNode root))"
          and nc: "n \<in> set (nodes ch)" by (auto simp: fd' rn)
      from kc set_update_subset [of key fl' "keyToChildNode root"]
      have "ch = fl' \<or> (k, ch) \<in> set (keyToChildNode root)" by auto
      then show ?thesis
      proof
        assume "ch = fl'"
        then have "lookup (idToCluster dX) j \<noteq> None" using lf nc hc j by blast
        then show ?thesis using fX l3 fd' by simp
      next
        assume kc0: "(k, ch) \<in> set (keyToChildNode root)"
        have "cid \<in> ids_of ch" using nc hc by (auto simp: ids_of_nodes)
        then have "cid \<in> ids_of root" using ids_of_child [OF kc0] by blast
        then show ?thesis using notin by simp
      qed
    qed
  qed
  show ?thesis using inv' fd' cr nn3 leaf by simp
qed

subsection \<open>Steps and runs\<close>

lemma Log_step:
  assumes inv: "len_inv d" and lt: "clustersCounter d < MaxInt"
    and L: "Log N d content = Inr (c, d')"
  shows "len_inv d'" and "config d' = config d"
    and "merged d content c d' \<or> created d content c d'"
    and "cache (idToCluster d') \<noteq> None"
    and "clustersCounter d' \<noteq> clustersCounter d
          \<Longrightarrow> \<forall>n \<in> set (nodes (rootNode d')). id' c \<in> set (clusterIDs n)
                \<longrightarrow> (\<forall>j \<in> set (clusterIDs n). lookup (idToCluster d') j \<noteq> None)"
proof -
  from L obtain r d1 where
    t: "treeSearch d (rootNode d) (getContentAsTokens d content) (SimTh (config d)) False
          = Inr (r, d1)"
    by (auto simp: Log_def Let_def split: sum.splits)
  have all: "len_inv d' \<and> config d' = config d
      \<and> (merged d content c d' \<or> created d content c d')
      \<and> cache (idToCluster d') \<noteq> None
      \<and> (clustersCounter d' \<noteq> clustersCounter d
          \<longrightarrow> (\<forall>n \<in> set (nodes (rootNode d')). id' c \<in> set (clusterIDs n)
                \<longrightarrow> (\<forall>j \<in> set (clusterIDs n). lookup (idToCluster d') j \<noteq> None)))"
  proof (cases r)
    case None
    from Log_create [OF inv lt t [unfolded None] L] show ?thesis by blast
  next
    case (Some m)
    from Log_merge(2) [OF inv t [unfolded Some] L] show ?thesis
      by (auto simp: merged_def)
  qed
  then show "len_inv d'" "config d' = config d" "merged d content c d' \<or> created d content c d'"
    "cache (idToCluster d') \<noteq> None"
    "clustersCounter d' \<noteq> clustersCounter d
          \<Longrightarrow> \<forall>n \<in> set (nodes (rootNode d')). id' c \<in> set (clusterIDs n)
                \<longrightarrow> (\<forall>j \<in> set (clusterIDs n). lookup (idToCluster d') j \<noteq> None)"
    by blast+
qed

lemma Log_Inl:
  assumes inv: "len_inv d" and L: "Log N d content = Inl e"
  shows "e = NilDereference"
proof (cases "treeSearch d (rootNode d) (getContentAsTokens d content) (SimTh (config d)) False")
  case (Inl e')
  then have "e = e'" using L by (simp add: Log_def Let_def)
  then show ?thesis
    using treeSearch_Inl [OF inv getContentAsTokens_nonempty Inl] by simp
next
  case (Inr p)
  obtain r d1 where p: "p = (r, d1)" by (cases p)
  show ?thesis
  proof (cases r)
    case None
    then show ?thesis using L Inr p
      by (auto simp: Log_def Let_def split: sum.splits
               dest: cache_Set_Inl addSeqToPrefixTree_Inl)
  next
    case (Some m)
    from Log_merge(1) [where N = N, OF inv Inr [unfolded p Some]] show ?thesis using L by auto
  qed
qed

lemma Log_root_fan:
  assumes rf: "root_fan d" and M: "1 \<le> MaxChildren (config d)"
    and L: "Log N d content = Inr (c, d')"
  shows "root_fan d' \<and> config d' = config d"
proof -
  define tokens where "tokens = getContentAsTokens d content"
  have ne: "tokens \<noteq> []" unfolding tokens_def by (rule getContentAsTokens_nonempty)
  from L obtain r d1 where
    t: "treeSearch d (rootNode d) tokens (SimTh (config d)) False = Inr (r, d1)"
    by (auto simp: Log_def Let_def tokens_def split: sum.splits)
  have tr: "touch_rel d d1" using treeSearch_touch [OF ne t] .
  have f1: "config d1 = config d" "rootNode d1 = rootNode d" "clustersCounter d1 = clustersCounter d"
    using touch_rel_fields [OF tr] by auto
  show ?thesis
  proof (cases r)
    case (Some m)
    then obtain c' where "d' = d1\<lparr>idToCluster := c'\<rparr>"
      using L t by (auto simp: Log_def Let_def tokens_def [symmetric] split: sum.splits)
    then show ?thesis using rf f1 by (simp add: root_fan_def)
  next
    case None
    define cid where "cid = incr (clustersCounter d1)"
    define mc where "mc = \<lparr>logTemplateTokens = tokens, id' = cid, size' = 1\<rparr>"
    from L obtain cs rn d3 where
        add: "addSeqToPrefixTree N (d1\<lparr>clustersCounter := cid, idToCluster := cs\<rparr>) (rootNode d) mc
                  = Inr (rn, d3)"
        and d': "d' = d3\<lparr>rootNode := rn\<rparr>"
      using t None f1
      by (auto simp: Log_def Let_def tokens_def [symmetric] mc_def cid_def split: sum.splits)
    define dX where "dX = d1\<lparr>clustersCounter := cid, idToCluster := cs\<rparr>"
    define key where "key = Itoa (int (length tokens))"
    have mct: "logTemplateTokens mc = tokens" by (simp add: mc_def)
    from addSeqToPrefixTree_Inr [OF add [folded dX_def]] ne mct obtain fl fl' where
        fl: "fl = createNode \<or> (key, fl) \<in> set (keyToChildNode (rootNode d))"
        and loop: "addSeq_loop N dX mc (int (length tokens)) 1 tokens fl = Inr (fl', d3)"
        and rn: "rn = Node (AList.update key fl' (keyToChildNode (rootNode d))) (clusterIDs (rootNode d))"
      unfolding key_def by auto
    have fX: "config dX = config d" by (simp add: dX_def f1)
    have tr3: "touch_rel dX d3" using addSeq_loop_Inr [OF loop] by simp
    have f3: "config d3 = config d" using touch_rel_fields [OF tr3] fX by simp
    have ffl: "fan_ok (MaxChildren (config dX)) (ParamString (config dX)) fl"
      using fl rf M by (auto simp: fX root_fan_def fan_ok_createNode)
    have M': "1 \<le> MaxChildren (config dX)" using M fX by simp
    have "fan_ok (MaxChildren (config dX)) (ParamString (config dX)) fl'"
      using addSeq_loop_fan [where N = N and cl = mc and tc = "int (length tokens)"
                               and depth = 1 and tokens = tokens, OF M' ffl] loop
      by blast
    then have ffl': "fan_ok (MaxChildren (config d)) (ParamString (config d)) fl'"
      using fX by simp
    have "distinct (map fst (AList.update key fl' (keyToChildNode (rootNode d))))"
      using rf by (simp add: root_fan_def distinct_update)
    moreover have "\<forall>(k, c) \<in> set (AList.update key fl' (keyToChildNode (rootNode d))).
            fan_ok (MaxChildren (config d)) (ParamString (config d)) c"
      using rf ffl' set_update_subset [of key fl' "keyToChildNode (rootNode d)"]
      by (auto simp: root_fan_def)
    ultimately show ?thesis using f3 by (simp add: root_fan_def d' rn)
  qed
qed

lemma Log_ok:
  assumes inv: "len_inv d" and rf: "root_fan d" and M: "1 \<le> MaxChildren (config d)"
    and nn: "cache (idToCluster d) \<noteq> None"
  shows "\<exists>c d'. Log N d content = Inr (c, d')"
proof (cases "Log N d content")
  case (Inr p)
  then show ?thesis by (cases p) auto
next
  case (Inl e)
  define tokens where "tokens = getContentAsTokens d content"
  have ne: "tokens \<noteq> []" unfolding tokens_def by (rule getContentAsTokens_nonempty)
  show ?thesis
  proof (cases "treeSearch d (rootNode d) tokens (SimTh (config d)) False")
    case (Inl e')
    from treeSearch_Inl [OF inv ne Inl] nn show ?thesis by simp
  next
    case (Inr p)
    obtain r d1 where p: "p = (r, d1)" by (cases p)
    have t: "treeSearch d (rootNode d) tokens (SimTh (config d)) False = Inr (r, d1)"
      using Inr p by simp
    have tr: "touch_rel d d1" using treeSearch_touch [OF ne t] .
    have f1: "config d1 = config d" "rootNode d1 = rootNode d"
      using touch_rel_fields [OF tr] by auto
    have nn1: "cache (idToCluster d1) \<noteq> None" using tr nn by (simp add: touch_rel_def)
    show ?thesis
    proof (cases r)
      case (Some m)
      from Log_merge(1) [where N = N, OF inv t [unfolded Some tokens_def]] show ?thesis .
    next
      case None
      define cid where "cid = incr (clustersCounter d1)"
      define mc where "mc = \<lparr>logTemplateTokens = tokens, id' = cid, size' = 1\<rparr>"
      obtain l where l: "cache (idToCluster d1) = Some l" using nn1 by auto
      define cs where "cs = (idToCluster d1)\<lparr>cache := Some (LRU_Add cid mc l)\<rparr>"
      have set: "cache_Set cid mc (idToCluster d1) = Inr cs"
        using l by (simp add: cache_Set_def cs_def)
      define dX where "dX = d1\<lparr>clustersCounter := cid, idToCluster := cs\<rparr>"
      have fX: "config dX = config d" "cache (idToCluster dX) \<noteq> None"
        by (simp_all add: dX_def f1 cs_def)
      define key where "key = Itoa (int (length tokens))"
      define fl where "fl = (case map_of (keyToChildNode (rootNode d)) key of
                               None \<Rightarrow> createNode | Some n \<Rightarrow> n)"
      have ffl: "fan_ok (MaxChildren (config dX)) (ParamString (config dX)) fl"
        using rf M by (auto simp: fl_def fX root_fan_def fan_ok_createNode
                            split: option.splits dest!: map_of_SomeD)
      have M': "1 \<le> MaxChildren (config dX)" using M fX by simp
      have "\<exists>fl' d3. addSeq_loop N dX mc (int (length tokens)) 1 tokens fl = Inr (fl', d3)"
      proof (cases "addSeq_loop N dX mc (int (length tokens)) 1 tokens fl")
        case (Inl e'')
        then show ?thesis
          using addSeq_loop_fan [where N = N and cl = mc and tc = "int (length tokens)"
                               and depth = 1 and tokens = tokens, OF M' ffl] fX
          by simp
      next
        case (Inr q)
        then show ?thesis by (cases q) auto
      qed
      then obtain fl' d3 where "addSeq_loop N dX mc (int (length tokens)) 1 tokens fl = Inr (fl', d3)"
        by blast
      then have "\<exists>rn. addSeqToPrefixTree N dX (rootNode d) mc = Inr (rn, d3)"
        using ne by (simp add: addSeqToPrefixTree_def Let_def mc_def fl_def key_def)
      then show ?thesis
        using t None set f1
        by (auto simp: Log_def Let_def tokens_def [symmetric] mc_def [symmetric] cid_def [symmetric]
                       dX_def)
    qed
  qed
qed

lemma New_inv:
  assumes "New cfg = Inr d0"
  shows "len_inv d0" and "root_fan d0" and "clustersCounter d0 = 0"
    and "config d0 = cfg\<lparr>maxNodeDepth := LogClusterDepth cfg - 2\<rparr>"
    and "0 \<le> MaxClusters cfg \<Longrightarrow> cache (idToCluster d0) \<noteq> None"
    and "lookup (idToCluster d0) = (\<lambda>i. None)"
proof -
  from assms have d0: "d0 = \<lparr>config = cfg\<lparr>maxNodeDepth := LogClusterDepth cfg - 2\<rparr>,
                rootNode = createNode,
                idToCluster = createLogClusterCache (MaxClusters cfg),
                clustersCounter = 0\<rparr>"
    by (auto simp: New_def split: if_splits)
  show "len_inv d0"
    by (auto simp: d0 len_inv_def store_ok_def createLogClusterCache_def NewLRU_def createNode_def)
  show "root_fan d0" by (simp add: d0 root_fan_def createNode_def)
  show "clustersCounter d0 = 0" by (simp add: d0)
  show "config d0 = cfg\<lparr>maxNodeDepth := LogClusterDepth cfg - 2\<rparr>" by (simp add: d0)
  show "lookup (idToCluster d0) = (\<lambda>i. None)"
    by (auto simp: d0 lookup_def createLogClusterCache_def NewLRU_def LRU_Peek_def)
  assume "0 \<le> MaxClusters cfg"
  then show "cache (idToCluster d0) \<noteq> None"
    by (auto simp: d0 createLogClusterCache_def NewLRU_def MaxInt_def)
qed

lemma generalizes_refl: "generalizes P t t"
  by (simp add: generalizes_def)

lemma generalizes_trans: "generalizes P a b \<Longrightarrow> generalizes P b c \<Longrightarrow> generalizes P a c"
  by (simp add: generalizes_def)

lemma createTemplate_generalizes:
  "createTemplate d seq1 seq2 = Inr t \<Longrightarrow> generalizes (ParamString (config d)) seq2 t"
  by (auto simp: createTemplate_def generalizes_def split: if_splits)

lemma Log_step_facts:
  assumes inv: "len_inv d" and lt: "clustersCounter d < MaxInt"
    and L: "Log N d content = Inr (c, d')"
  shows "clustersCounter d \<le> clustersCounter d'"
    and "clustersCounter d' \<le> clustersCounter d + 1"
    and "1 \<le> id' c \<and> id' c \<le> clustersCounter d'"
    and "lookup (idToCluster d') (id' c) = Some c"
    and "i \<le> clustersCounter d \<Longrightarrow> lookup (idToCluster d) i = None
           \<Longrightarrow> lookup (idToCluster d') i = None \<and> id' c \<noteq> i"
    and "lookup (idToCluster d) i = Some old \<Longrightarrow> lookup (idToCluster d') i = Some new
           \<Longrightarrow> generalizes (ParamString (config d)) (logTemplateTokens old) (logTemplateTokens new)"
    and "(clustersCounter d' = clustersCounter d \<and> lookup (idToCluster d) (id' c) \<noteq> None)
         \<or> (clustersCounter d' = clustersCounter d + 1 \<and> id' c = clustersCounter d + 1
             \<and> size' c = 1 \<and> lookup (idToCluster d) (id' c) = None)"
proof -
  have ok: "store_ok (idToCluster d) (clustersCounter d)" and c0: "0 \<le> clustersCounter d"
    using inv by (simp_all add: len_inv_def)
  from Log_step(3) [OF inv lt L] have
    "(clustersCounter d \<le> clustersCounter d'
      \<and> clustersCounter d' \<le> clustersCounter d + 1
      \<and> (1 \<le> id' c \<and> id' c \<le> clustersCounter d')
      \<and> lookup (idToCluster d') (id' c) = Some c
      \<and> (i \<le> clustersCounter d \<longrightarrow> lookup (idToCluster d) i = None
           \<longrightarrow> lookup (idToCluster d') i = None \<and> id' c \<noteq> i)
      \<and> (lookup (idToCluster d) i = Some old \<longrightarrow> lookup (idToCluster d') i = Some new
           \<longrightarrow> generalizes (ParamString (config d)) (logTemplateTokens old) (logTemplateTokens new))
      \<and> ((clustersCounter d' = clustersCounter d \<and> lookup (idToCluster d) (id' c) \<noteq> None)
         \<or> (clustersCounter d' = clustersCounter d + 1 \<and> id' c = clustersCounter d + 1
             \<and> size' c = 1 \<and> lookup (idToCluster d) (id' c) = None)))"
  proof
    assume m: "merged d content c d'"
    then obtain old0 where o: "lookup (idToCluster d) (id' c) = Some old0"
      and cc: "clustersCounter d' = clustersCounter d"
      and l: "lookup (idToCluster d') = (lookup (idToCluster d))(id' c \<mapsto> c)"
      and ct: "createTemplate d (getContentAsTokens d content) (logTemplateTokens old0)
            = Inr (logTemplateTokens c)"
      by (auto simp: merged_def)
    have rng: "1 \<le> id' c \<and> id' c \<le> clustersCounter d" using store_ok_lookup [OF ok o] by simp
    have g: "generalizes (ParamString (config d)) (logTemplateTokens old0) (logTemplateTokens c)"
      using ct by (rule createTemplate_generalizes)
    show ?thesis using o cc l rng g by (auto simp: generalizes_refl)
  next
    assume cr: "created d content c d'"
    then have cc: "clustersCounter d' = clustersCounter d + 1"
      and idc: "id' c = clustersCounter d + 1" and sz: "size' c = 1"
      and f: "lookup (idToCluster d) (id' c) = None"
      and l: "lookup (idToCluster d') (id' c) = Some c"
      and o: "\<forall>k x. k \<noteq> id' c \<longrightarrow> lookup (idToCluster d') k = Some x
             \<longrightarrow> lookup (idToCluster d) k = Some x"
      by (auto simp: created_def)
    have a: "i \<le> clustersCounter d \<longrightarrow> lookup (idToCluster d) i = None
           \<longrightarrow> lookup (idToCluster d') i = None \<and> id' c \<noteq> i"
    proof (intro impI)
      assume i: "i \<le> clustersCounter d" and n: "lookup (idToCluster d) i = None"
      have ne: "i \<noteq> id' c" using i idc by simp
      have "lookup (idToCluster d') i = None"
      proof (cases "lookup (idToCluster d') i")
        case None
        then show ?thesis .
      next
        case (Some x)
        then show ?thesis using o ne n by auto
      qed
      then show "lookup (idToCluster d') i = None \<and> id' c \<noteq> i" using ne by simp
    qed
    have b: "lookup (idToCluster d) i = Some old \<longrightarrow> lookup (idToCluster d') i = Some new
           \<longrightarrow> generalizes (ParamString (config d)) (logTemplateTokens old) (logTemplateTokens new)"
    proof (intro impI)
      assume io: "lookup (idToCluster d) i = Some old" and inw: "lookup (idToCluster d') i = Some new"
      have "i \<noteq> id' c" using io f by auto
      then have "lookup (idToCluster d) i = Some new" using o inw by blast
      then show "generalizes (ParamString (config d)) (logTemplateTokens old) (logTemplateTokens new)"
        using io by (simp add: generalizes_refl)
    qed
    show ?thesis using cc idc sz f l a b c0 by simp
  qed
  then show "clustersCounter d \<le> clustersCounter d'"
    and "clustersCounter d' \<le> clustersCounter d + 1"
    and "1 \<le> id' c \<and> id' c \<le> clustersCounter d'"
    and "lookup (idToCluster d') (id' c) = Some c"
    and "i \<le> clustersCounter d \<Longrightarrow> lookup (idToCluster d) i = None
           \<Longrightarrow> lookup (idToCluster d') i = None \<and> id' c \<noteq> i"
    and "lookup (idToCluster d) i = Some old \<Longrightarrow> lookup (idToCluster d') i = Some new
           \<Longrightarrow> generalizes (ParamString (config d)) (logTemplateTokens old) (logTemplateTokens new)"
    and "(clustersCounter d' = clustersCounter d \<and> lookup (idToCluster d) (id' c) \<noteq> None)
         \<or> (clustersCounter d' = clustersCounter d + 1 \<and> id' c = clustersCounter d + 1
             \<and> size' c = 1 \<and> lookup (idToCluster d) (id' c) = None)"
    by blast+
qed

lemma trainAll_inv:
  assumes "len_inv d" and "clustersCounter d + int (length lines) \<le> MaxInt"
    and "trainAll N d lines = Inr (cs, d')"
  shows "len_inv d' \<and> config d' = config d
      \<and> clustersCounter d \<le> clustersCounter d'
      \<and> clustersCounter d' \<le> clustersCounter d + int (length lines)
      \<and> (\<forall>c \<in> set cs. 1 \<le> id' c \<and> id' c \<le> clustersCounter d')
      \<and> (\<forall>i. i \<le> clustersCounter d \<longrightarrow> lookup (idToCluster d) i = None
             \<longrightarrow> lookup (idToCluster d') i = None)
      \<and> (\<forall>i old new. lookup (idToCluster d) i = Some old \<longrightarrow> lookup (idToCluster d') i = Some new
             \<longrightarrow> generalizes (ParamString (config d)) (logTemplateTokens old)
                   (logTemplateTokens new))"
  using assms
proof (induction lines arbitrary: d cs)
  case Nil
  then show ?case by (auto simp: generalizes_refl)
next
  case (Cons line lines)
  from Cons.prems(3) obtain c d1 cs1 where L: "Log N d line = Inr (c, d1)"
      and T: "trainAll N d1 lines = Inr (cs1, d')" and cs: "cs = c # cs1"
    by (auto split: sum.splits)
  have lt: "clustersCounter d < MaxInt" using Cons.prems(2) by simp
  have inv: "len_inv d" by (rule Cons.prems(1))
  have inv1: "len_inv d1" and cf1: "config d1 = config d"
    using Log_step(1,2) [OF inv lt L] by auto
  note f = Log_step_facts [OF inv lt L]
  have b1: "clustersCounter d1 + int (length lines) \<le> MaxInt"
    using f(2) Cons.prems(2) by simp
  note ih = Cons.IH [OF inv1 b1 T]
  have ok: "store_ok (idToCluster d) (clustersCounter d)" using inv by (simp add: len_inv_def)
  have res: "\<forall>i. i \<le> clustersCounter d \<longrightarrow> lookup (idToCluster d) i = None
             \<longrightarrow> lookup (idToCluster d') i = None"
  proof (intro allI impI)
    fix i
    assume i: "i \<le> clustersCounter d" and n: "lookup (idToCluster d) i = None"
    have "lookup (idToCluster d1) i = None" using f(5) [OF i n] by simp
    moreover have "i \<le> clustersCounter d1" using i f(1) by simp
    ultimately show "lookup (idToCluster d') i = None" using ih by blast
  qed
  have gen: "\<forall>i old new. lookup (idToCluster d) i = Some old \<longrightarrow> lookup (idToCluster d') i = Some new
             \<longrightarrow> generalizes (ParamString (config d)) (logTemplateTokens old)
                   (logTemplateTokens new)"
  proof (intro allI impI)
    fix i old new
    assume o: "lookup (idToCluster d) i = Some old" and n: "lookup (idToCluster d') i = Some new"
    have i: "i \<le> clustersCounter d1" using store_ok_lookup [OF ok o] f(1) by simp
    show "generalizes (ParamString (config d)) (logTemplateTokens old) (logTemplateTokens new)"
    proof (cases "lookup (idToCluster d1) i")
      case None
      then have "lookup (idToCluster d') i = None" using ih i by blast
      then show ?thesis using n by simp
    next
      case (Some mid)
      have "generalizes (ParamString (config d)) (logTemplateTokens old) (logTemplateTokens mid)"
        using f(6) [OF o Some] .
      moreover have "generalizes (ParamString (config d)) (logTemplateTokens mid) (logTemplateTokens new)"
        using ih Some n cf1 by auto
      ultimately show ?thesis by (rule generalizes_trans)
    qed
  qed
  have ids: "\<forall>c \<in> set cs. 1 \<le> id' c \<and> id' c \<le> clustersCounter d'"
    using ih f(3) cs by auto
  show ?case using ih cf1 f(1,2) res gen ids by auto
qed

lemma trainAll_root_fan:
  assumes "root_fan d" and "1 \<le> MaxChildren (config d)" and "trainAll N d lines = Inr (cs, d')"
  shows "root_fan d' \<and> config d' = config d"
  using assms
proof (induction lines arbitrary: d cs)
  case Nil
  then show ?case by simp
next
  case (Cons line lines)
  from Cons.prems(3) obtain c d1 cs1 where L: "Log N d line = Inr (c, d1)"
      and T: "trainAll N d1 lines = Inr (cs1, d')"
    by (auto split: sum.splits)
  from Log_root_fan [OF Cons.prems(1,2) L] have r1: "root_fan d1" and c1: "config d1 = config d"
    by auto
  from Cons.IH [OF r1 _ T] Cons.prems(2) c1 show ?case by simp
qed

lemma trainAll_cache:
  assumes "cache (idToCluster d) \<noteq> None" and "len_inv d"
    and "clustersCounter d + int (length lines) \<le> MaxInt"
    and "trainAll N d lines = Inr (cs, d')"
  shows "cache (idToCluster d') \<noteq> None"
  using assms
proof (induction lines arbitrary: d cs)
  case Nil
  then show ?case by simp
next
  case (Cons line lines)
  from Cons.prems(4) obtain c d1 cs1 where L: "Log N d line = Inr (c, d1)"
      and T: "trainAll N d1 lines = Inr (cs1, d')"
    by (auto split: sum.splits)
  have lt: "clustersCounter d < MaxInt" using Cons.prems(3) by simp
  note s = Log_step [OF Cons.prems(2) lt L]
  note f = Log_step_facts [OF Cons.prems(2) lt L]
  have "clustersCounter d1 + int (length lines) \<le> MaxInt" using f(2) Cons.prems(3) by simp
  from Cons.IH [OF s(4) s(1) this T] show ?case .
qed

lemma trainAll_Inl:
  assumes "len_inv d" and "clustersCounter d + int (length lines) \<le> MaxInt"
    and "trainAll N d lines = Inl e"
  shows "e = NilDereference"
  using assms
proof (induction lines arbitrary: d)
  case Nil
  then show ?case by simp
next
  case (Cons line lines)
  show ?case
  proof (cases "Log N d line")
    case (Inl e')
    then have "e = e'" using Cons.prems(3) by simp
    then show ?thesis using Log_Inl [OF Cons.prems(1) Inl] by simp
  next
    case (Inr p)
    obtain c d1 where p: "p = (c, d1)" by (cases p)
    have L: "Log N d line = Inr (c, d1)" using Inr p by simp
    have lt: "clustersCounter d < MaxInt" using Cons.prems(2) by simp
    note s = Log_step [OF Cons.prems(1) lt L]
    note f = Log_step_facts [OF Cons.prems(1) lt L]
    have b: "clustersCounter d1 + int (length lines) \<le> MaxInt" using f(2) Cons.prems(2) by simp
    have "trainAll N d1 lines = Inl e" using Cons.prems(3) L by (auto split: sum.splits)
    from Cons.IH [OF s(1) b this] show ?thesis .
  qed
qed

subsection \<open>Properties of every run\<close>

lemma runMiner_Inr:
  assumes "runMiner N cfg lines = Inr (cs, d)"
  obtains d0 where "New cfg = Inr d0" and "trainAll N d0 lines = Inr (cs, d)"
  using assms by (auto simp: runMiner_def split: sum.splits)

lemma runMiner_inv:
  assumes r: "runMiner N cfg lines = Inr (cs, d)" and b: "int (length lines) \<le> MaxInt"
  shows "len_inv d" and "ParamString (config d) = ParamString cfg"
    and "MaxChildren (config d) = MaxChildren cfg"
    and "clustersCounter d \<le> int (length lines)"
    and "\<forall>c \<in> set cs. 1 \<le> id' c \<and> id' c \<le> clustersCounter d"
    and "0 \<le> MaxClusters cfg \<Longrightarrow> cache (idToCluster d) \<noteq> None"
    and "1 \<le> MaxChildren cfg \<Longrightarrow> root_fan d"
proof -
  from r obtain d0 where n: "New cfg = Inr d0" and t: "trainAll N d0 lines = Inr (cs, d)"
    by (rule runMiner_Inr)
  note i0 = New_inv [OF n]
  have b0: "clustersCounter d0 + int (length lines) \<le> MaxInt" using b i0(3) by simp
  note ti = trainAll_inv [OF i0(1) b0 t]
  show "len_inv d" using ti by simp
  have cf: "config d = cfg\<lparr>maxNodeDepth := LogClusterDepth cfg - 2\<rparr>" using ti i0(4) by simp
  show "ParamString (config d) = ParamString cfg" "MaxChildren (config d) = MaxChildren cfg"
    using cf by simp_all
  show "clustersCounter d \<le> int (length lines)" using ti i0(3) by simp
  show "\<forall>c \<in> set cs. 1 \<le> id' c \<and> id' c \<le> clustersCounter d" using ti by simp
  show "cache (idToCluster d) \<noteq> None" if "0 \<le> MaxClusters cfg"
    using trainAll_cache [OF i0(5) [OF that] i0(1) b0 t] .
  show "root_fan d" if "1 \<le> MaxChildren cfg"
    using trainAll_root_fan [OF i0(2) _ t] that i0(4) by simp
qed

text \<open>
  C3, as amended. When \<^verbatim>\<open>MaxChildren\<close> is at least 1, then after every sequence of
  train calls every node below the root has at most \<^verbatim>\<open>MaxChildren\<close> children (the keys
  of a node are distinct, so the length of its child list is the number of entries). The
  root is not bounded: it gets one child for every token count that was trained.
\<close>

theorem fan_out_below_root:
  assumes "runMiner Number cfg lines = Inr (clusters, d)"
    and "1 \<le> MaxChildren cfg"
    and "n \<in> set (subnodes (rootNode d))"
  shows "distinct (map fst (keyToChildNode n))
         \<and> int (length (keyToChildNode n)) \<le> MaxChildren cfg
         \<and> distinct (map fst (keyToChildNode (rootNode d)))"
proof -
  from assms(1) obtain d0 where n0: "New cfg = Inr d0"
      and t: "trainAll Number d0 lines = Inr (clusters, d)"
    by (rule runMiner_Inr)
  note i0 = New_inv [OF n0]
  have M0: "1 \<le> MaxChildren (config d0)" using assms(2) i0(4) by simp
  from trainAll_root_fan [OF i0(2) M0 t] have rf: "root_fan d" and cf: "config d = config d0"
    by auto
  have M: "MaxChildren (config d) = MaxChildren cfg" using cf i0(4) by simp
  from assms(3) obtain k c where kc: "(k, c) \<in> set (keyToChildNode (rootNode d))"
      and nc: "n \<in> set (nodes c)"
    by (auto simp: subnodes_def)
  have "fan_ok (MaxChildren (config d)) (ParamString (config d)) c"
    using rf kc by (auto simp: root_fan_def)
  from fan_ok_nodes [OF this nc] rf M show ?thesis by (simp add: root_fan_def)
qed

text \<open>
  With \<^verbatim>\<open>MaxChildren = 3\<close> and four lines of two tokens, the node for the token count
  2 ends with the children \<^verbatim>\<open>a\<close>, \<^verbatim>\<open>b\<close> and the wildcard.
\<close>

theorem fan_out_below_root_witness:
  "runMiner {} (DefaultConfig\<lparr>MaxChildren := 3\<rparr>) [''a x'', ''b x'', ''c x'', ''d x'']
     = Inr (projr (runMiner {} (DefaultConfig\<lparr>MaxChildren := 3\<rparr>)
                     [''a x'', ''b x'', ''c x'', ''d x'']))
   \<and> 1 \<le> MaxChildren (DefaultConfig\<lparr>MaxChildren := 3\<rparr>)
   \<and> map fst (keyToChildNode (hd (subnodes (rootNode (snd (projr
         (runMiner {} (DefaultConfig\<lparr>MaxChildren := 3\<rparr>)
                     [''a x'', ''b x'', ''c x'', ''d x''])))))))
       = [''a'', ''b'', ''<*>'']
   \<and> int (length (keyToChildNode (hd (subnodes (rootNode (snd (projr
         (runMiner {} (DefaultConfig\<lparr>MaxChildren := 3\<rparr>)
                     [''a x'', ''b x'', ''c x'', ''d x'']))))))))
       \<le> MaxChildren (DefaultConfig\<lparr>MaxChildren := 3\<rparr>)"
proof -
  define cfg where "cfg = DefaultConfig\<lparr>MaxChildren := 3\<rparr>"
  define L where "L = [''a x'', ''b x'', ''c x'', ''d x'']"
  define P where "P = projr (runMiner {} cfg L)"
  have r: "runMiner {} cfg L = Inr (fst P, snd P)"
    unfolding P_def cfg_def L_def by code_simp
  have m: "1 \<le> MaxChildren cfg" unfolding cfg_def by (simp add: DefaultConfig_def)
  have n: "hd (subnodes (rootNode (snd P))) \<in> set (subnodes (rootNode (snd P)))"
    unfolding P_def cfg_def L_def by code_simp
  have k: "map fst (keyToChildNode (hd (subnodes (rootNode (snd P))))) = [''a'', ''b'', ''<*>'']"
    unfolding P_def cfg_def L_def by code_simp
  from fan_out_below_root [OF r m n] r m k show ?thesis
    unfolding P_def cfg_def L_def by simp
qed

text \<open>
  C3 as stated fails at the root: with \<^verbatim>\<open>MaxChildren = 2\<close>, lines of one, two and
  three tokens give the root three children.
\<close>

theorem root_fan_out_counterexample:
  "(case runMiner {} (DefaultConfig\<lparr>MaxChildren := 2\<rparr>) [''a'', ''a b'', ''a b c''] of
      Inl e \<Rightarrow> False
    | Inr (clusters, d) \<Rightarrow>
        MaxChildren (config d) = 2
        \<and> map fst (keyToChildNode (rootNode d)) = [''1'', ''2'', ''3'']
        \<and> int (length (keyToChildNode (rootNode d))) > MaxChildren (config d))"
  by code_simp

text \<open>
  C5. A run of train calls never panics with the length mismatch of \<^verbatim>\<open>getSeqDistance\<close> or
  \<^verbatim>\<open>createTemplate\<close>: in every state a run reaches, each live cluster at the leaf that the
  descent reaches for a token list has a template of the length of that list, and
  \<^verbatim>\<open>createTemplate\<close> returns a template of the length of the one it is given. The cluster
  counter is a 64-bit integer, so the run has at most \<open>MaxInt\<close> calls.
\<close>

theorem no_length_mismatch:
  assumes "int (length lines) \<le> MaxInt"
  shows "runMiner Number cfg lines \<noteq> Inl LengthMismatch
    \<and> (\<forall>clusters d tokens curNode leaf i cl.
          runMiner Number cfg lines = Inr (clusters, d)
          \<longrightarrow> map_of (keyToChildNode (rootNode d)) (Itoa (int (length tokens))) = Some curNode
          \<longrightarrow> treeSearch_loop d (int (length tokens)) 1 tokens curNode = Some leaf
          \<longrightarrow> i \<in> set (clusterIDs leaf)
          \<longrightarrow> lookup (idToCluster d) i = Some cl
          \<longrightarrow> length (logTemplateTokens cl) = length tokens)
    \<and> (\<forall>d seq1 seq2 t. createTemplate d seq1 seq2 = Inr t \<longrightarrow> length t = length seq2)"
proof (intro conjI allI impI)
  show "runMiner Number cfg lines \<noteq> Inl LengthMismatch"
  proof (cases "New cfg")
    case (Inl e)
    then show ?thesis by (auto simp: runMiner_def New_def split: if_splits)
  next
    case (Inr d0)
    note i0 = New_inv [OF Inr]
    have b0: "clustersCounter d0 + int (length lines) \<le> MaxInt" using assms i0(3) by simp
    show ?thesis using trainAll_Inl [OF i0(1) b0] Inr by (auto simp: runMiner_def)
  qed
next
  fix clusters d tokens curNode leaf i cl
  assume r: "runMiner Number cfg lines = Inr (clusters, d)"
    and m: "map_of (keyToChildNode (rootNode d)) (Itoa (int (length tokens))) = Some curNode"
    and l: "treeSearch_loop d (int (length tokens)) 1 tokens curNode = Some leaf"
    and i: "i \<in> set (clusterIDs leaf)" and c: "lookup (idToCluster d) i = Some cl"
  have "len_inv d" using runMiner_inv(1) [OF r assms] .
  from leaf_lengths [OF this m l] i c show "length (logTemplateTokens cl) = length tokens"
    by blast
next
  fix d seq1 seq2 t
  assume "createTemplate d seq1 seq2 = Inr t"
  then show "length t = length seq2" using createTemplate_Inr by blast
qed

text \<open>
  A run of three lines, the leaf that the tokens of a fourth line reach in the state after
  it, and the merge of two lines of three tokens.
\<close>

theorem no_length_mismatch_witness:
  "int (length [''connected to 10.0.0.1'', ''connected to 10.0.0.2'', ''user davidoh logged in''])
     \<le> MaxInt
   \<and> runMiner {} DefaultConfig
        [''connected to 10.0.0.1'', ''connected to 10.0.0.2'', ''user davidoh logged in'']
       \<noteq> Inl LengthMismatch
   \<and> (case runMiner {} DefaultConfig
          [''connected to 10.0.0.1'', ''connected to 10.0.0.2'', ''user davidoh logged in''] of
        Inl e \<Rightarrow> False
      | Inr (clusters, d) \<Rightarrow>
          (case map_of (keyToChildNode (rootNode d)) (Itoa 3) of
             None \<Rightarrow> False
           | Some curNode \<Rightarrow>
               (case treeSearch_loop d 3 1 [''connected'', ''to'', ''10.0.0.9''] curNode of
                  None \<Rightarrow> False
                | Some leaf \<Rightarrow>
                    clusterIDs leaf = [1]
                    \<and> lookup (idToCluster d) 1
                        = Some \<lparr>logTemplateTokens = [''connected'', ''to'', ''<*>''],
                                id' = 1, size' = 2\<rparr>)))
   \<and> length (logTemplateTokens \<lparr>logTemplateTokens = [''connected'', ''to'', ''<*>''],
                                id' = 1, size' = 2\<rparr>)
       = length [''connected'', ''to'', ''10.0.0.9'']
   \<and> createTemplate (snd (projr (runMiner {} DefaultConfig [])))
        [''connected'', ''to'', ''10.0.0.2''] [''connected'', ''to'', ''10.0.0.1'']
       = Inr [''connected'', ''to'', ''<*>'']
   \<and> length [''connected'', ''to'', ''<*>''] = length [''connected'', ''to'', ''10.0.0.1'']"
proof -
  define L where
    "L = [''connected to 10.0.0.1'', ''connected to 10.0.0.2'', ''user davidoh logged in'']"
  define T where "T = [''connected'', ''to'', ''10.0.0.9'']"
  define cl where
    "cl = \<lparr>logTemplateTokens = [''connected'', ''to'', ''<*>''], id' = 1, size' = 2\<rparr>"
  define P where "P = projr (runMiner {} DefaultConfig L)"
  define curNode where "curNode = the (map_of (keyToChildNode (rootNode (snd P))) (Itoa 3))"
  define leaf where "leaf = the (treeSearch_loop (snd P) 3 1 T curNode)"
  have b: "int (length L) \<le> MaxInt"
    unfolding L_def by (simp add: MaxInt_def)
  have r: "runMiner {} DefaultConfig L = Inr (fst P, snd P)"
    unfolding P_def L_def by code_simp
  have m: "map_of (keyToChildNode (rootNode (snd P))) (Itoa (int (length T))) = Some curNode"
    unfolding curNode_def P_def L_def T_def by code_simp
  have l: "treeSearch_loop (snd P) (int (length T)) 1 T curNode = Some leaf"
    unfolding leaf_def curNode_def P_def L_def T_def by code_simp
  have i: "1 \<in> set (clusterIDs leaf)"
    unfolding leaf_def curNode_def P_def L_def T_def by code_simp
  have c: "lookup (idToCluster (snd P)) 1 = Some cl"
    unfolding P_def L_def cl_def by code_simp
  have shown: "case runMiner {} DefaultConfig L of
        Inl e \<Rightarrow> False
      | Inr (clusters, d) \<Rightarrow>
          (case map_of (keyToChildNode (rootNode d)) (Itoa 3) of
             None \<Rightarrow> False
           | Some curNode \<Rightarrow>
               (case treeSearch_loop d 3 1 T curNode of
                  None \<Rightarrow> False
                | Some leaf \<Rightarrow>
                    clusterIDs leaf = [1] \<and> lookup (idToCluster d) 1 = Some cl))"
    unfolding L_def T_def cl_def by code_simp
  have t: "createTemplate (snd (projr (runMiner {} DefaultConfig [])))
        [''connected'', ''to'', ''10.0.0.2''] [''connected'', ''to'', ''10.0.0.1'']
       = Inr [''connected'', ''to'', ''<*>'']"
    by code_simp
  note inst = no_length_mismatch [OF b, of "{}" DefaultConfig]
  have n: "runMiner {} DefaultConfig L \<noteq> Inl LengthMismatch" using inst by blast
  have e: "length (logTemplateTokens cl) = length T" using inst r m l i c by blast
  have z: "length [''connected'', ''to'', ''<*>''] = length [''connected'', ''to'', ''10.0.0.1'']"
    using inst t by blast
  show ?thesis using b n shown e t z unfolding L_def T_def cl_def by blast
qed

text \<open>
  C7. In a state reached by training (with \<^verbatim>\<open>MaxChildren\<close> at least 1 and
  \<^verbatim>\<open>MaxClusters\<close> not negative), the next train call returns: it does not panic. The
  cluster it returns is live afterwards; an id that was handed out before and is no longer
  in the store stays out of the store and is not the id returned. When the call creates a
  cluster, every id in the leaf that holds the new id is live. The scoring loop only
  selects a cluster that the store holds under one of the candidate ids, and the clean-up
  loop keeps exactly the ids that the store holds.
\<close>

theorem stale_ids_skipped_and_pruned:
  assumes "runMiner Number cfg lines = Inr (clusters, d)"
    and "1 \<le> MaxChildren cfg" and "0 \<le> MaxClusters cfg"
    and "int (length lines) < MaxInt"
  shows "\<exists>c d'. Log Number d line = Inr (c, d')
      \<and> lookup (idToCluster d') (id' c) = Some c
      \<and> (\<forall>i. i \<le> clustersCounter d \<longrightarrow> lookup (idToCluster d) i = None
             \<longrightarrow> lookup (idToCluster d') i = None \<and> id' c \<noteq> i)
      \<and> (clustersCounter d' \<noteq> clustersCounter d
           \<longrightarrow> (\<forall>n \<in> set (nodes (rootNode d')). id' c \<in> set (clusterIDs n)
                  \<longrightarrow> (\<forall>j \<in> set (clusterIDs n). lookup (idToCluster d') j \<noteq> None)))
      \<and> (\<forall>ids tokens simTh includeParams m d1.
             fastMatch d ids tokens simTh includeParams = Inr (Some m, d1)
             \<longrightarrow> (\<exists>i \<in> set ids. lookup (idToCluster d) i = Some m))
      \<and> (\<forall>ids newClusterIDs d1.
             cleanup_loop d ids = Inr (newClusterIDs, d1)
             \<longrightarrow> newClusterIDs = filter (\<lambda>i. lookup (idToCluster d) i \<noteq> None) ids)"
proof -
  have b: "int (length lines) \<le> MaxInt" using assms(4) by simp
  note ri = runMiner_inv [OF assms(1) b]
  have inv: "len_inv d" by (rule ri(1))
  have lt: "clustersCounter d < MaxInt" using ri(4) assms(4) by simp
  have rf: "root_fan d" using ri(7) assms(2) by simp
  have M: "1 \<le> MaxChildren (config d)" using ri(3) assms(2) by simp
  have nn: "cache (idToCluster d) \<noteq> None" using ri(6) assms(3) by simp
  from Log_ok [OF inv rf M nn] obtain c d' where L: "Log Number d line = Inr (c, d')"
    by blast
  note s = Log_step [OF inv lt L]
  note f = Log_step_facts [OF inv lt L]
  have a: "\<forall>i. i \<le> clustersCounter d \<longrightarrow> lookup (idToCluster d) i = None
             \<longrightarrow> lookup (idToCluster d') i = None \<and> id' c \<noteq> i"
    using f(5) by blast
  have p: "clustersCounter d' \<noteq> clustersCounter d
           \<longrightarrow> (\<forall>n \<in> set (nodes (rootNode d')). id' c \<in> set (clusterIDs n)
                  \<longrightarrow> (\<forall>j \<in> set (clusterIDs n). lookup (idToCluster d') j \<noteq> None))"
    using s(5) by blast
  have fm: "\<forall>ids tokens simTh includeParams m d1.
             fastMatch d ids tokens simTh includeParams = Inr (Some m, d1)
             \<longrightarrow> (\<exists>i \<in> set ids. lookup (idToCluster d) i = Some m)"
    using fastMatch_Inr(2) by blast
  have cl: "\<forall>ids newClusterIDs d1.
             cleanup_loop d ids = Inr (newClusterIDs, d1)
             \<longrightarrow> newClusterIDs = filter (\<lambda>i. lookup (idToCluster d) i \<noteq> None) ids"
    using cleanup_loop_Inr by blast
  show ?thesis using L f(4) a p fm cl by blast
qed

text \<open>
  With \<^verbatim>\<open>MaxClusters = 2\<close>, three lines evict cluster 2, whose id stays in the leaf
  below \<^verbatim>\<open>2\<close> and \<^verbatim>\<open>b\<close>; training \<^verbatim>\<open>b z\<close> then reaches that leaf, returns, and
  cluster 2 stays evicted.
\<close>

theorem stale_ids_skipped_and_pruned_witness:
  "runMiner {} (DefaultConfig\<lparr>MaxClusters := 2\<rparr>) [''a x y'', ''b y'', ''a p q'']
     = Inr (projr (runMiner {} (DefaultConfig\<lparr>MaxClusters := 2\<rparr>)
                     [''a x y'', ''b y'', ''a p q'']))
   \<and> 1 \<le> MaxChildren (DefaultConfig\<lparr>MaxClusters := 2\<rparr>)
   \<and> 0 \<le> MaxClusters (DefaultConfig\<lparr>MaxClusters := 2\<rparr>)
   \<and> int (length [''a x y'', ''b y'', ''a p q'']) < MaxInt
   \<and> lookup (idToCluster (snd (projr (runMiner {} (DefaultConfig\<lparr>MaxClusters := 2\<rparr>)
                     [''a x y'', ''b y'', ''a p q''])))) 2 = None
   \<and> rootNode (snd (projr (runMiner {} (DefaultConfig\<lparr>MaxClusters := 2\<rparr>)
                     [''a x y'', ''b y'', ''a p q''])))
       = Node [(''3'', Node [(''a'', Node [] [1, 3])] []),
               (''2'', Node [(''b'', Node [] [2])] [])] []
   \<and> Log {} (snd (projr (runMiner {} (DefaultConfig\<lparr>MaxClusters := 2\<rparr>)
                     [''a x y'', ''b y'', ''a p q'']))) ''b z''
       = Inr (projr (Log {} (snd (projr (runMiner {} (DefaultConfig\<lparr>MaxClusters := 2\<rparr>)
                     [''a x y'', ''b y'', ''a p q'']))) ''b z''))
   \<and> rootNode (snd (projr (Log {} (snd (projr (runMiner {} (DefaultConfig\<lparr>MaxClusters := 2\<rparr>)
                     [''a x y'', ''b y'', ''a p q'']))) ''b z'')))
       = Node [(''3'', Node [(''a'', Node [] [1, 3])] []),
               (''2'', Node [(''b'', Node [] [4])] [])] []
   \<and> lookup (idToCluster (snd (projr (Log {} (snd (projr (runMiner {}
              (DefaultConfig\<lparr>MaxClusters := 2\<rparr>) [''a x y'', ''b y'', ''a p q'']))) ''b z'')))) 2
       = None
   \<and> lookup (idToCluster (snd (projr (Log {} (snd (projr (runMiner {}
              (DefaultConfig\<lparr>MaxClusters := 2\<rparr>) [''a x y'', ''b y'', ''a p q'']))) ''b z'')))) 4
       \<noteq> None
   \<and> id' (fst (projr (Log {} (snd (projr (runMiner {} (DefaultConfig\<lparr>MaxClusters := 2\<rparr>)
                     [''a x y'', ''b y'', ''a p q'']))) ''b z''))) \<noteq> 2"
proof -
  define cfg where "cfg = DefaultConfig\<lparr>MaxClusters := 2\<rparr>"
  define L where "L = [''a x y'', ''b y'', ''a p q'']"
  define P where "P = projr (runMiner {} cfg L)"
  define Q where "Q = projr (Log {} (snd P) ''b z'')"
  have r: "runMiner {} cfg L = Inr (fst P, snd P)"
    unfolding P_def cfg_def L_def by code_simp
  have r': "runMiner {} cfg L = Inr P" using r by simp
  have m: "1 \<le> MaxChildren cfg" unfolding cfg_def by (simp add: DefaultConfig_def)
  have k: "0 \<le> MaxClusters cfg" unfolding cfg_def by simp
  have b: "int (length L) < MaxInt" unfolding L_def by (simp add: MaxInt_def)
  have e: "lookup (idToCluster (snd P)) 2 = None"
    unfolding P_def cfg_def L_def by code_simp
  have i: "2 \<le> clustersCounter (snd P)"
    unfolding P_def cfg_def L_def by code_simp
  have t: "rootNode (snd P) = Node [(''3'', Node [(''a'', Node [] [1, 3])] []),
               (''2'', Node [(''b'', Node [] [2])] [])] []"
    unfolding P_def cfg_def L_def by code_simp
  have l: "Log {} (snd P) ''b z'' = Inr Q"
    unfolding Q_def P_def cfg_def L_def by code_simp
  have t': "rootNode (snd Q) = Node [(''3'', Node [(''a'', Node [] [1, 3])] []),
               (''2'', Node [(''b'', Node [] [4])] [])] []"
    unfolding Q_def P_def cfg_def L_def by code_simp
  have idq: "id' (fst Q) = 4" unfolding Q_def P_def cfg_def L_def by code_simp
  have cnt: "clustersCounter (snd Q) \<noteq> clustersCounter (snd P)"
    unfolding Q_def P_def cfg_def L_def by code_simp
  from stale_ids_skipped_and_pruned [OF r m k b, of "''b z''"]
  obtain c d' where L': "Log {} (snd P) ''b z'' = Inr (c, d')"
    and a: "\<forall>i. i \<le> clustersCounter (snd P) \<longrightarrow> lookup (idToCluster (snd P)) i = None
             \<longrightarrow> lookup (idToCluster d') i = None \<and> id' c \<noteq> i"
    and p: "clustersCounter d' \<noteq> clustersCounter (snd P)
           \<longrightarrow> (\<forall>n \<in> set (nodes (rootNode d')). id' c \<in> set (clusterIDs n)
                  \<longrightarrow> (\<forall>j \<in> set (clusterIDs n). lookup (idToCluster d') j \<noteq> None))"
    by blast
  have cq: "c = fst Q" "d' = snd Q" using L' l by auto
  have x: "lookup (idToCluster (snd Q)) 2 = None \<and> id' (fst Q) \<noteq> 2"
    using a e i cq by blast
  have "Node [] [4] \<in> set (nodes (rootNode (snd Q)))" unfolding t' by simp
  then have "\<forall>j \<in> set (clusterIDs (Node [] [4])). lookup (idToCluster (snd Q)) j \<noteq> None"
    using p cnt cq idq by auto
  then have y: "lookup (idToCluster (snd Q)) 4 \<noteq> None" by simp
  show ?thesis using r' m k b e t l t' x y unfolding Q_def P_def cfg_def L_def by blast
qed

text \<open>
  C8. Let a cluster be live in a state reached by training and still live after any
  further train calls. Its template has kept its length, and every position that held
  the wildcard still holds it.
\<close>

theorem monotone_generalization:
  assumes "runMiner Number cfg lines = Inr (clusters, d)"
    and "trainAll Number d further = Inr (clusters', d')"
    and "int (length lines) + int (length further) \<le> MaxInt"
    and "lookup (idToCluster d) i = Some old"
    and "lookup (idToCluster d') i = Some new"
    and "p < length (logTemplateTokens old)"
    and "logTemplateTokens old ! p = ParamString cfg"
  shows "length (logTemplateTokens new) = length (logTemplateTokens old)
         \<and> logTemplateTokens new ! p = ParamString cfg"
proof -
  have b: "int (length lines) \<le> MaxInt" using assms(3) by simp
  note ri = runMiner_inv [OF assms(1) b]
  have b2: "clustersCounter d + int (length further) \<le> MaxInt" using ri(4) assms(3) by simp
  from trainAll_inv [OF ri(1) b2 assms(2)] assms(4,5)
  have "generalizes (ParamString (config d)) (logTemplateTokens old) (logTemplateTokens new)"
    by blast
  then show ?thesis using assms(6,7) ri(2) by (simp add: generalizes_def)
qed

text \<open>
  Cluster 1 has the wildcard at position 1 after two lines; a third line generalizes
  position 3 and position 1 stays the wildcard.
\<close>

theorem monotone_generalization_witness:
  "runMiner {} DefaultConfig [''user a logged in'', ''user b logged in'']
     = Inr (projr (runMiner {} DefaultConfig [''user a logged in'', ''user b logged in'']))
   \<and> trainAll {} (snd (projr (runMiner {} DefaultConfig
                      [''user a logged in'', ''user b logged in''])))
        [''user c logged out'']
       = Inr (projr (trainAll {} (snd (projr (runMiner {} DefaultConfig
                      [''user a logged in'', ''user b logged in''])))
        [''user c logged out'']))
   \<and> lookup (idToCluster (snd (projr (runMiner {} DefaultConfig
                      [''user a logged in'', ''user b logged in''])))) 1
       = Some \<lparr>logTemplateTokens = [''user'', ''<*>'', ''logged'', ''in''], id' = 1, size' = 2\<rparr>
   \<and> lookup (idToCluster (snd (projr (trainAll {} (snd (projr (runMiner {} DefaultConfig
                      [''user a logged in'', ''user b logged in''])))
        [''user c logged out''])))) 1
       = Some \<lparr>logTemplateTokens = [''user'', ''<*>'', ''logged'', ''<*>''], id' = 1, size' = 3\<rparr>
   \<and> logTemplateTokens
         \<lparr>logTemplateTokens = [''user'', ''<*>'', ''logged'', ''<*>''], id' = 1, size' = 3\<rparr> ! 1
       = ParamString DefaultConfig"
proof -
  define L where "L = [''user a logged in'', ''user b logged in'']"
  define P where "P = projr (runMiner {} DefaultConfig L)"
  define Q where "Q = projr (trainAll {} (snd P) [''user c logged out''])"
  define old where
    "old = \<lparr>logTemplateTokens = [''user'', ''<*>'', ''logged'', ''in''], id' = 1, size' = 2\<rparr>"
  define new where
    "new = \<lparr>logTemplateTokens = [''user'', ''<*>'', ''logged'', ''<*>''], id' = 1, size' = 3\<rparr>"
  have r: "runMiner {} DefaultConfig L = Inr (fst P, snd P)"
    unfolding P_def L_def by code_simp
  have t: "trainAll {} (snd P) [''user c logged out''] = Inr (fst Q, snd Q)"
    unfolding Q_def P_def L_def by code_simp
  have b: "int (length L) + int (length [''user c logged out'']) \<le> MaxInt"
    unfolding L_def by (simp add: MaxInt_def)
  have o: "lookup (idToCluster (snd P)) 1 = Some old"
    unfolding P_def L_def old_def by code_simp
  have n: "lookup (idToCluster (snd Q)) 1 = Some new"
    unfolding Q_def P_def L_def new_def by code_simp
  have p: "1 < length (logTemplateTokens old)" unfolding old_def by simp
  have w: "logTemplateTokens old ! 1 = ParamString DefaultConfig"
    unfolding old_def by (simp add: DefaultConfig_def)
  have r': "runMiner {} DefaultConfig L = Inr P" using r by simp
  have t': "trainAll {} (snd P) [''user c logged out''] = Inr Q" using t by simp
  from monotone_generalization [OF r t b o n p w]
  have x: "logTemplateTokens new ! 1 = ParamString DefaultConfig" by simp
  show ?thesis using r' t' o n x unfolding Q_def P_def L_def old_def new_def by blast
qed

text \<open>
  C9. In a state reached by training, every cluster returned so far and every cluster in
  the store has an id between 1 and the counter, and the counter is 0 before the first
  call. The next train call either returns a cluster the store already holds and leaves
  the counter, or it creates a cluster whose id is the counter plus one, which becomes the
  new counter value. So the ids of created clusters are 1, 2, 3, and so on in the order of
  creation, and no id is given twice.
\<close>

theorem cluster_ids_increase:
  assumes "runMiner Number cfg lines = Inr (clusters, d)"
    and "int (length lines) < MaxInt"
    and "Log Number d line = Inr (c, d')"
  shows "(\<forall>c' \<in> set clusters. 1 \<le> id' c' \<and> id' c' \<le> clustersCounter d)
      \<and> (\<forall>i cl. lookup (idToCluster d) i = Some cl
            \<longrightarrow> id' cl = i \<and> 1 \<le> i \<and> i \<le> clustersCounter d)
      \<and> (lines = [] \<longrightarrow> clustersCounter d = 0)
      \<and> ((clustersCounter d' = clustersCounter d \<and> lookup (idToCluster d) (id' c) \<noteq> None)
         \<or> (clustersCounter d' = clustersCounter d + 1 \<and> id' c = clustersCounter d + 1
             \<and> size' c = 1 \<and> lookup (idToCluster d) (id' c) = None))"
proof -
  have b: "int (length lines) \<le> MaxInt" using assms(2) by simp
  note ri = runMiner_inv [OF assms(1) b]
  have inv: "len_inv d" by (rule ri(1))
  have lt: "clustersCounter d < MaxInt" using ri(4) assms(2) by simp
  have ok: "store_ok (idToCluster d) (clustersCounter d)" using inv by (simp add: len_inv_def)
  have z: "lines = [] \<longrightarrow> clustersCounter d = 0"
    using ri(4) inv by (auto simp: len_inv_def)
  have st: "\<forall>i cl. lookup (idToCluster d) i = Some cl
            \<longrightarrow> id' cl = i \<and> 1 \<le> i \<and> i \<le> clustersCounter d"
    using store_ok_lookup [OF ok] by blast
  show ?thesis using ri(5) st z Log_step_facts(7) [OF inv lt assms(3)] by blast
qed

text \<open>After clusters 1 and 2, a line of a new shape creates cluster 3.\<close>

theorem cluster_ids_increase_witness:
  "runMiner {} DefaultConfig [''a x y'', ''b y''] = Inr (projr (runMiner {} DefaultConfig [''a x y'', ''b y'']))
   \<and> int (length [''a x y'', ''b y'']) < MaxInt
   \<and> Log {} (snd (projr (runMiner {} DefaultConfig [''a x y'', ''b y'']))) ''c d e f''
       = Inr (projr (Log {} (snd (projr (runMiner {} DefaultConfig [''a x y'', ''b y'']))) ''c d e f''))
   \<and> map id' (fst (projr (runMiner {} DefaultConfig [''a x y'', ''b y'']))) = [1, 2]
   \<and> clustersCounter (snd (projr (runMiner {} DefaultConfig [''a x y'', ''b y'']))) = 2
   \<and> id' (fst (projr (Log {} (snd (projr (runMiner {} DefaultConfig [''a x y'', ''b y'']))) ''c d e f''))) = 3
   \<and> (clustersCounter (snd (projr (Log {} (snd (projr (runMiner {} DefaultConfig [''a x y'', ''b y'']))) ''c d e f'')))
        = clustersCounter (snd (projr (runMiner {} DefaultConfig [''a x y'', ''b y''])))
      \<or> clustersCounter (snd (projr (Log {} (snd (projr (runMiner {} DefaultConfig [''a x y'', ''b y'']))) ''c d e f'')))
        = clustersCounter (snd (projr (runMiner {} DefaultConfig [''a x y'', ''b y'']))) + 1)"
proof -
  define L where "L = [''a x y'', ''b y'']"
  define P where "P = projr (runMiner {} DefaultConfig L)"
  define Q where "Q = projr (Log {} (snd P) ''c d e f'')"
  have r: "runMiner {} DefaultConfig L = Inr (fst P, snd P)"
    unfolding P_def L_def by code_simp
  have l: "Log {} (snd P) ''c d e f'' = Inr (fst Q, snd Q)"
    unfolding Q_def P_def L_def by code_simp
  have b: "int (length L) < MaxInt" unfolding L_def by (simp add: MaxInt_def)
  have i: "map id' (fst P) = [1, 2]" unfolding P_def L_def by code_simp
  have k: "clustersCounter (snd P) = 2" unfolding P_def L_def by code_simp
  have j: "id' (fst Q) = 3" unfolding Q_def P_def L_def by code_simp
  have r': "runMiner {} DefaultConfig L = Inr P" using r by simp
  have l': "Log {} (snd P) ''c d e f'' = Inr Q" using l by simp
  from cluster_ids_increase [OF r b l]
  have x: "clustersCounter (snd Q) = clustersCounter (snd P)
           \<or> clustersCounter (snd Q) = clustersCounter (snd P) + 1"
    by blast
  show ?thesis using r' b l' i k j x unfolding Q_def P_def L_def by blast
qed

subsection \<open>Rounding of token counts\<close>

lemma bit_length_pos: "0 < k \<Longrightarrow> bit_length k = 1 + bit_length (k div 2)"
  by (subst bit_length.simps) simp

lemma bit_length_nonpos: "k \<le> 0 \<Longrightarrow> bit_length k = 0"
  by (subst bit_length.simps) simp

lemma bit_length_bounds:
  "0 < k \<Longrightarrow> 1 \<le> bit_length k \<and> 2 ^ nat (bit_length k - 1) \<le> k \<and> k < 2 ^ nat (bit_length k)"
proof (induction k rule: bit_length.induct)
  case (1 k)
  show ?case
  proof (cases "k div 2 \<le> 0")
    case True
    then have "k = 1" using 1(2) by arith
    then show ?thesis by (simp add: bit_length_pos bit_length_nonpos)
  next
    case False
    then have p: "0 < k div 2" by simp
    have ih: "1 \<le> bit_length (k div 2) \<and> 2 ^ nat (bit_length (k div 2) - 1) \<le> k div 2
                \<and> k div 2 < 2 ^ nat (bit_length (k div 2))"
      using 1(1) 1(2) p by simp
    define b where "b = nat (bit_length (k div 2) - 1)"
    have bl: "bit_length (k div 2) = int b + 1" using ih by (simp add: b_def)
    have bk: "bit_length k = int b + 2" using 1(2) bl by (simp add: bit_length_pos)
    have lo: "(2::int) ^ b \<le> k div 2" using ih by (simp add: b_def)
    have hi: "k div 2 < (2::int) ^ (b + 1)" using ih bl by (simp add: nat_add_distrib)
    have n1: "nat (bit_length k - 1) = b + 1" using bk by (simp add: nat_add_distrib)
    have n2: "nat (bit_length k) = b + 2" using bk by (simp add: nat_add_distrib)
    have "(2::int) ^ (b + 1) \<le> k" using lo by simp
    moreover have "k < (2::int) ^ (b + 2)" using hi by simp
    ultimately show ?thesis using bk n1 n2 by simp
  qed
qed

lemma floor_log2_of_int:
  assumes "0 < k"
  shows "floor_log2 (of_int k) = bit_length k - 1"
proof -
  note b = bit_length_bounds [OF assms]
  have one: "bit_length 1 = 1" by (simp add: bit_length_pos bit_length_nonpos)
  have "power_int (2::rat) (bit_length k - 1) = 2 ^ nat (bit_length k - 1)"
    using b by (simp add: power_int_def)
  also have "\<dots> = of_int (2 ^ nat (bit_length k - 1))" by simp
  also have "\<dots> \<le> of_int k" using b by (simp only: of_int_le_iff)
  finally show ?thesis by (simp add: floor_log2_def one Let_def)
qed

lemma round_half_even_of_int: "round_half_even (of_int m) = m"
  by (simp add: round_half_even_def Let_def)

text \<open>
  An integer below \<open>2 ^ 53\<close> is a \<^verbatim>\<open>float64\<close>: its conversion is exact. So the similarity
  of the source is the quotient of the two exact counts, rounded once.
\<close>

lemma round_f64_of_int:
  assumes "0 \<le> k" and "k < 2 ^ 53"
  shows "round_f64 (of_int k) = of_int k"
proof (cases "k = 0")
  case True
  then show ?thesis by (simp add: round_f64_def)
next
  case False
  then have p: "0 < k" using assms by simp
  note b = bit_length_bounds [OF p]
  define n where "n = nat (bit_length k - 1)"
  have e: "bit_length k - 1 = int n" using b by (simp add: n_def)
  have "(2::int) ^ n \<le> k" using b by (simp add: n_def)
  then have "(2::int) ^ n < 2 ^ 53" using assms(2) by (rule le_less_trans)
  then have "n < 53" by (rule power_less_imp_less_exp [rotated]) simp
  then have n: "n \<le> 52" by simp
  define m where "m = 52 - n"
  have u: "power_int (2::rat) (int n - 52) = inverse (2 ^ m)"
    using n by (simp add: power_int_def m_def nat_diff_distrib' inverse_eq_divide power_one_over)
  have q: "\<bar>rat_of_int k\<bar> / inverse (2 ^ m) = of_int (k * 2 ^ m)"
    using p by (simp add: divide_inverse)
  have ab: "\<bar>rat_of_int k\<bar> = of_int k" using p by simp
  have fl: "floor_log2 \<bar>rat_of_int k\<bar> - 52 = int n - 52"
    unfolding ab floor_log2_of_int [OF p] e by simp
  have r: "round_half_even (\<bar>rat_of_int k\<bar> / inverse (2 ^ m)) = k * 2 ^ m"
    unfolding q by (rule round_half_even_of_int)
  have "round_f64 (of_int k)
          = sgn (rat_of_int k)
            * of_int (round_half_even
                (\<bar>rat_of_int k\<bar> / power_int 2 (floor_log2 \<bar>rat_of_int k\<bar> - 52)))
            * power_int 2 (floor_log2 \<bar>rat_of_int k\<bar> - 52)"
    using False by (simp add: round_f64_def Let_def)
  also have "\<dots> = sgn (rat_of_int k) * of_int (k * 2 ^ m) * inverse (2 ^ m)"
    unfolding fl u r ..
  also have "\<dots> = of_int k" using p by simp
  finally show ?thesis .
qed

lemma round_half_even_nonneg: "0 \<le> q \<Longrightarrow> 0 \<le> round_half_even q"
  by (auto simp: round_half_even_def Let_def)

lemma round_f64_nonneg: "0 \<le> x \<Longrightarrow> 0 \<le> round_f64 x"
  by (auto simp: round_f64_def Let_def
      intro!: mult_nonneg_nonneg round_half_even_nonneg divide_nonneg_nonneg)

subsection \<open>The search against the spec's descent and selection\<close>

lemma getSeqDistance_fold:
  "fold (\<lambda>(token1, token2) (simTokens, paramCount).
           if token1 = P then (simTokens, paramCount + 1)
           else if token1 = token2 then (simTokens + 1, paramCount)
           else (simTokens, paramCount)) zs (a :: int, b :: int)
   = (a + int (length (filter (\<lambda>(t, x). t \<noteq> P \<and> t = x) zs)),
      b + int (length (filter (\<lambda>(t, x). t = P) zs)))"
  by (induction zs arbitrary: a b) auto

lemma filter_disjoint_length:
  "(\<And>x. \<not> (P x \<and> Q x)) \<Longrightarrow> length (filter P xs) + length (filter Q xs) \<le> length xs"
  by (induction xs) auto

lemma spec_seq_distance_counts:
  "int (length (filter (\<lambda>(t, x). t \<noteq> P \<and> t = x) (zip seq1 seq2)))
     + int (length (filter (\<lambda>(t, x). t = P) (zip seq1 seq2))) \<le> int (length seq1)"
proof -
  have "length (filter (\<lambda>(t, x). t \<noteq> P \<and> t = x) (zip seq1 seq2))
          + length (filter (\<lambda>(t, x). t = P) (zip seq1 seq2)) \<le> length (zip seq1 seq2)"
    by (rule filter_disjoint_length) auto
  then show ?thesis by simp
qed

lemma getSeqDistance_spec:
  assumes "length seq1 = length seq2" and "seq2 \<noteq> []" and "int (length seq2) < 2 ^ 53"
  shows "getSeqDistance d seq1 seq2 ip
     = Inr (F64 (round_f64 (fst (spec_seq_distance (ParamString (config d)) seq1 seq2 ip))),
            snd (spec_seq_distance (ParamString (config d)) seq1 seq2 ip))"
proof -
  define P where "P = ParamString (config d)"
  define s where "s = int (length (filter (\<lambda>(t, x). t \<noteq> P \<and> t = x) (zip seq1 seq2)))"
  define p where "p = int (length (filter (\<lambda>(t, x). t = P) (zip seq1 seq2)))"
  define k where "k = s + (if ip then p else 0)"
  have sp: "s + p \<le> int (length seq1)"
    unfolding s_def p_def by (rule spec_seq_distance_counts)
  have s0: "0 \<le> s" and p0: "0 \<le> p" by (simp_all add: s_def p_def)
  have k0: "0 \<le> k" and k1: "k < 2 ^ 53"
    using sp s0 p0 assms(1,3) by (auto simp: k_def)
  have l0: "0 \<le> int (length seq1)" and l1: "int (length seq1) < 2 ^ 53"
    using assms(1,3) by simp_all
  have rk: "round_f64 (of_int k) = of_int k" using k0 k1 by (rule round_f64_of_int)
  have rl: "round_f64 (of_int (int (length seq1))) = of_int (int (length seq1))"
    using l0 l1 by (rule round_f64_of_int)
  have g: "getSeqDistance d seq1 seq2 ip
             = Inr (F64 (round_f64 (round_f64 (of_int k)
                                     / round_f64 (of_int (int (length seq1))))), p)"
    using assms(1,2)
    by (simp add: getSeqDistance_def getSeqDistance_fold Let_def k_def s_def p_def P_def)
  have sd: "spec_seq_distance P seq1 seq2 ip = (of_int k / of_int (int (length seq1)), p)"
    by (simp add: spec_seq_distance_def Let_def k_def s_def p_def)
  show ?thesis unfolding g rk rl P_def [symmetric] sd by simp
qed

lemma spec_seq_distance_nonneg: "0 \<le> fst (spec_seq_distance P t x ip)"
  by (simp add: spec_seq_distance_def Let_def)

lemma spec_score_nonneg: "0 \<le> fst (apfst round_f64 (spec_seq_distance P t x ip))"
  using round_f64_nonneg [OF spec_seq_distance_nonneg [of P t x ip]] by simp

lemma treeSearch_loop_spec:
  "1 \<le> depth \<Longrightarrow>
   treeSearch_loop d (int (length tokens)) (int depth) (drop (depth - 1) tokens) node
     = spec_descend (maxNodeDepth (config d)) (ParamString (config d)) tokens depth node"
proof (induction "length tokens - depth" arbitrary: depth node rule: less_induct)
  case less
  show ?case
  proof (cases "depth - 1 < length tokens")
    case False
    then have "drop (depth - 1) tokens = []" by simp
    moreover have "\<not> depth < length tokens" using False by simp
    ultimately show ?thesis by (subst spec_descend.simps) simp
  next
    case True
    then have dr: "drop (depth - 1) tokens = tokens ! (depth - 1) # drop depth tokens"
      using less.prems by (metis Cons_nth_drop_Suc Suc_diff_1 Suc_le_eq One_nat_def)
    have le: "depth \<le> length tokens" using True less.prems by simp
    show ?thesis
    proof (cases "int depth < maxNodeDepth (config d) \<and> depth < length tokens")
      case False
      then show ?thesis using le unfolding dr
        by (subst spec_descend.simps) auto
    next
      case c: True
      have ih: "\<And>n. treeSearch_loop d (int (length tokens)) (int depth + 1) (drop depth tokens) n
            = spec_descend (maxNodeDepth (config d)) (ParamString (config d)) tokens (depth + 1) n"
      proof -
        fix n
        have "length tokens - (depth + 1) < length tokens - depth" using c by arith
        from less.hyps [OF this, of n] show "treeSearch_loop d (int (length tokens)) (int depth + 1) (drop depth tokens) n
            = spec_descend (maxNodeDepth (config d)) (ParamString (config d)) tokens (depth + 1) n"
          by (simp add: add.commute)
      qed
      show ?thesis using c unfolding dr
        by (subst spec_descend.simps) (auto simp: ih split: option.splits)
    qed
  qed
qed

lemma fastMatch_loop_best_acc:
  assumes "fastMatch_loop d tokens ip ids (F64 s, p, mc) = Inr ((ms, mp, mc'), d')"
    and "tokens \<noteq> []" and "int (length tokens) < 2 ^ 53"
  shows "\<exists>s'. ms = F64 s'
           \<and> best_acc (\<lambda>cl. apfst round_f64 (spec_seq_distance (ParamString (config d)) (logTemplateTokens cl) tokens ip))
                (s, p) mc (List.map_filter (lookup (idToCluster d)) ids) = ((s', mp), mc')"
  using assms(1)
proof (induction ids arbitrary: d s p mc)
  case Nil
  then show ?case by (simp add: map_filter_simps)
next
  case (Cons i ids)
  define score where
    "score = (\<lambda>cl :: LogCluster. apfst round_f64 (spec_seq_distance (ParamString (config d)) (logTemplateTokens cl) tokens ip))"
  from Cons.prems obtain r c where g: "cache_Get i (idToCluster d) = Inr (r, c)"
    by (auto split: sum.splits)
  have r: "r = lookup (idToCluster d) i" and l: "lookup c = lookup (idToCluster d)"
    using cache_Get_Inr [OF g] by auto
  define d1 where "d1 = d\<lparr>idToCluster := c\<rparr>"
  have cf: "config d1 = config d" and l1: "lookup (idToCluster d1) = lookup (idToCluster d)"
    using l by (simp_all add: d1_def)
  show ?case
  proof (cases r)
    case None
    then have "fastMatch_loop d1 tokens ip ids (F64 s, p, mc) = Inr ((ms, mp, mc'), d')"
      using Cons.prems g by (simp add: d1_def)
    from Cons.IH [OF this] show ?thesis
      using None r cf l1 by (simp add: map_filter_simps)
  next
    case (Some cl)
    from Cons.prems g Some obtain x where
      gs: "getSeqDistance d (logTemplateTokens cl) tokens ip = Inr x"
      by (auto split: sum.splits)
    then have len: "length (logTemplateTokens cl) = length tokens"
      by (auto simp: getSeqDistance_def split: if_splits)
    have gs': "getSeqDistance d (logTemplateTokens cl) tokens ip
                 = Inr (F64 (fst (score cl)), snd (score cl))"
      unfolding score_def using getSeqDistance_spec [OF len assms(2,3)] by simp
    show ?thesis
    proof (cases "spec_better (score cl) (s, p)")
      case True
      then have "fastMatch_loop d1 tokens ip ids (F64 (fst (score cl)), snd (score cl), Some cl)
                   = Inr ((ms, mp, mc'), d')"
        using Cons.prems g Some gs' by (auto simp: d1_def spec_better_def)
      from Cons.IH [OF this] show ?thesis
        using True Some r cf l1
        by (simp add: map_filter_simps score_def apfst_def map_prod_def split_beta)
    next
      case False
      then have "fastMatch_loop d1 tokens ip ids (F64 s, p, mc) = Inr ((ms, mp, mc'), d')"
        using Cons.prems g Some gs' by (auto simp: d1_def spec_better_def)
      from Cons.IH [OF this] show ?thesis
        using False Some r cf l1
        by (simp add: map_filter_simps score_def apfst_def map_prod_def split_beta)
    qed
  qed
qed

lemma best_acc_char:
  "best_acc score sc mc cls = (sc', mc') \<Longrightarrow>
     (sc' = sc \<and> mc' = mc \<and> (\<forall>x \<in> set cls. \<not> spec_better (score x) sc))
     \<or> (\<exists>pre m post. cls = pre @ m # post \<and> sc' = score m \<and> mc' = Some m
            \<and> spec_better (score m) sc
            \<and> (\<forall>x \<in> set pre. spec_better (score m) (score x))
            \<and> (\<forall>x \<in> set post. \<not> spec_better (score x) (score m)))"
proof (induction cls arbitrary: sc mc)
  case Nil
  then show ?case by simp
next
  case (Cons cl cls)
  show ?case
  proof (cases "spec_better (score cl) sc")
    case True
    then have b: "best_acc score (score cl) (Some cl) cls = (sc', mc')" using Cons.prems by simp
    from Cons.IH [OF b] show ?thesis
    proof
      assume "sc' = score cl \<and> mc' = Some cl \<and> (\<forall>x \<in> set cls. \<not> spec_better (score x) (score cl))"
      then have "cl # cls = [] @ cl # cls \<and> sc' = score cl \<and> mc' = Some cl
            \<and> spec_better (score cl) sc
            \<and> (\<forall>x \<in> set []. spec_better (score cl) (score x))
            \<and> (\<forall>x \<in> set cls. \<not> spec_better (score x) (score cl))"
        using True by simp
      then show ?thesis by blast
    next
      assume "\<exists>pre m post. cls = pre @ m # post \<and> sc' = score m \<and> mc' = Some m
            \<and> spec_better (score m) (score cl)
            \<and> (\<forall>x \<in> set pre. spec_better (score m) (score x))
            \<and> (\<forall>x \<in> set post. \<not> spec_better (score x) (score m))"
      then obtain pre m post where h: "cls = pre @ m # post" "sc' = score m" "mc' = Some m"
            "spec_better (score m) (score cl)"
            "\<forall>x \<in> set pre. spec_better (score m) (score x)"
            "\<forall>x \<in> set post. \<not> spec_better (score x) (score m)"
        by blast
      have "spec_better (score m) sc" using h(4) True by (auto simp: spec_better_def)
      then have "cl # cls = (cl # pre) @ m # post \<and> sc' = score m \<and> mc' = Some m
            \<and> spec_better (score m) sc
            \<and> (\<forall>x \<in> set (cl # pre). spec_better (score m) (score x))
            \<and> (\<forall>x \<in> set post. \<not> spec_better (score x) (score m))"
        using h by simp
      then show ?thesis by blast
    qed
  next
    case False
    then have b: "best_acc score sc mc cls = (sc', mc')" using Cons.prems by simp
    from Cons.IH [OF b] show ?thesis
    proof
      assume "sc' = sc \<and> mc' = mc \<and> (\<forall>x \<in> set cls. \<not> spec_better (score x) sc)"
      then show ?thesis using False by simp
    next
      assume "\<exists>pre m post. cls = pre @ m # post \<and> sc' = score m \<and> mc' = Some m
            \<and> spec_better (score m) sc
            \<and> (\<forall>x \<in> set pre. spec_better (score m) (score x))
            \<and> (\<forall>x \<in> set post. \<not> spec_better (score x) (score m))"
      then obtain pre m post where h: "cls = pre @ m # post" "sc' = score m" "mc' = Some m"
            "spec_better (score m) sc"
            "\<forall>x \<in> set pre. spec_better (score m) (score x)"
            "\<forall>x \<in> set post. \<not> spec_better (score x) (score m)"
        by blast
      have "spec_better (score m) (score cl)" using h(4) False by (auto simp: spec_better_def)
      then have "cl # cls = (cl # pre) @ m # post \<and> sc' = score m \<and> mc' = Some m
            \<and> spec_better (score m) sc
            \<and> (\<forall>x \<in> set (cl # pre). spec_better (score m) (score x))
            \<and> (\<forall>x \<in> set post. \<not> spec_better (score x) (score m))"
        using h by simp
      then show ?thesis by blast
    qed
  qed
qed

lemma spec_better_asym: "spec_better a b \<Longrightarrow> \<not> spec_better b a"
  by (cases a, cases b) (simp add: spec_better_def, linarith)

lemma spec_better_irrefl: "\<not> spec_better a a"
  by (simp add: spec_better_def)

lemma spec_best_first:
  assumes "\<forall>x \<in> set pre. spec_better (score m) (score x)"
    and "\<forall>x \<in> set post. \<not> spec_better (score x) (score m)"
  shows "spec_best theta score (pre @ m # post)
           = (if fst (score m) < theta then None else Some m)"
proof -
  define cands where "cands = pre @ m # post"
  define unbeaten where "unbeaten = (\<lambda>m. \<forall>cl \<in> set cands. \<not> spec_better (score cl) (score m))"
  have mc: "m \<in> set cands" by (simp add: cands_def)
  have "\<forall>x \<in> set pre. \<not> unbeaten x" using assms(1) mc by (auto simp: unbeaten_def)
  then have p: "filter unbeaten pre = []" by (simp add: filter_empty_conv)
  have "unbeaten m"
    unfolding unbeaten_def
  proof
    fix cl
    assume "cl \<in> set cands"
    then have "cl \<in> set pre \<or> cl = m \<or> cl \<in> set post" by (auto simp: cands_def)
    then show "\<not> spec_better (score cl) (score m)"
      using assms spec_better_asym [of "score m" "score cl"] spec_better_irrefl [of "score m"]
      by blast
  qed
  then have "filter unbeaten cands = m # filter unbeaten post"
    using p by (simp add: cands_def)
  then have "spec_best theta score cands = (if fst (score m) < theta then None else Some m)"
    by (simp add: spec_best_def unbeaten_def)
  then show ?thesis by (simp add: cands_def)
qed

lemma fastMatch_spec:
  assumes "fastMatch d ids tokens theta ip = Inr (r, d')" and "tokens \<noteq> []"
    and "int (length tokens) < 2 ^ 53"
  shows "r = spec_best theta
               (\<lambda>cl. apfst round_f64 (spec_seq_distance (ParamString (config d)) (logTemplateTokens cl) tokens ip))
               (List.map_filter (lookup (idToCluster d)) ids)"
proof -
  define score where
    "score = (\<lambda>cl :: LogCluster. apfst round_f64 (spec_seq_distance (ParamString (config d)) (logTemplateTokens cl) tokens ip))"
  define cands where "cands = List.map_filter (lookup (idToCluster d)) ids"
  from assms(1) obtain ms mp mc' where
      l: "fastMatch_loop d tokens ip ids (F64 (- 1), - 1, None) = Inr ((ms, mp, mc'), d')"
      and r: "r = (if f64_ge ms (F64 theta) then mc' else None)"
    by (auto simp: fastMatch_def split: sum.splits prod.splits)
  from fastMatch_loop_best_acc [OF l assms(2,3)] obtain s' where ms: "ms = F64 s'"
      and b: "best_acc score (- 1, - 1) None cands = ((s', mp), mc')"
    by (auto simp: score_def cands_def)
  have pos: "\<And>x. spec_better (score x) (- 1, - 1)"
  proof -
    fix x
    have "0 \<le> fst (score x)" unfolding score_def by (rule spec_score_nonneg)
    then have "- 1 < fst (score x)" by simp
    then show "spec_better (score x) (- 1, - 1)" by (simp add: spec_better_def)
  qed
  from best_acc_char [OF b] show ?thesis
  proof
    assume "(s', mp) = (- 1, - 1) \<and> mc' = None \<and> (\<forall>x \<in> set cands. \<not> spec_better (score x) (- 1, - 1))"
    then have "cands = []" and "mc' = None" using pos by (cases cands; auto)+
    then show ?thesis using r
      unfolding score_def [symmetric] cands_def [symmetric] by (simp add: spec_best_def)
  next
    assume "\<exists>pre m post. cands = pre @ m # post \<and> (s', mp) = score m \<and> mc' = Some m
            \<and> spec_better (score m) (- 1, - 1)
            \<and> (\<forall>x \<in> set pre. spec_better (score m) (score x))
            \<and> (\<forall>x \<in> set post. \<not> spec_better (score x) (score m))"
    then obtain pre m post where h: "cands = pre @ m # post" "(s', mp) = score m" "mc' = Some m"
            "\<forall>x \<in> set pre. spec_better (score m) (score x)"
            "\<forall>x \<in> set post. \<not> spec_better (score x) (score m)"
      by blast
    have s: "s' = fst (score m)" using h(2) by (metis fst_conv)
    have "spec_best theta score cands = (if fst (score m) < theta then None else Some m)"
      unfolding h(1) using h(4,5) by (rule spec_best_first)
    moreover have "r = (if fst (score m) < theta then None else Some m)"
      using r ms s h(3) by auto
    ultimately show ?thesis
      unfolding score_def [symmetric] cands_def [symmetric] by simp
  qed
qed

lemma treeSearch_spec:
  assumes "treeSearch d (rootNode d) tokens theta ip = Inr (r, d')" and "tokens \<noteq> []"
    and "int (length tokens) < 2 ^ 53"
  shows "r = spec_best theta
               (\<lambda>cl. apfst round_f64 (spec_seq_distance (ParamString (config d)) (logTemplateTokens cl) tokens ip))
               (spec_candidates d tokens)"
proof -
  have loop: "\<And>node. treeSearch_loop d (int (length tokens)) 1 tokens node
        = spec_descend (maxNodeDepth (config d)) (ParamString (config d)) tokens 1 node"
    using treeSearch_loop_spec [of 1 d tokens] by simp
  show ?thesis
  proof (cases "map_of (keyToChildNode (rootNode d)) (Itoa (int (length tokens)))")
    case None
    then show ?thesis using assms
      by (simp add: treeSearch_def spec_candidates_def spec_best_def)
  next
    case (Some node)
    show ?thesis
    proof (cases "spec_descend (maxNodeDepth (config d)) (ParamString (config d)) tokens 1 node")
      case None
      then show ?thesis using assms Some loop
        by (simp add: treeSearch_def spec_candidates_def spec_best_def)
    next
      case (Some leaf)
      then have "fastMatch d (clusterIDs leaf) tokens theta ip = Inr (r, d')"
        using assms \<open>map_of (keyToChildNode (rootNode d)) (Itoa (int (length tokens))) = Some node\<close> loop
        by (simp add: treeSearch_def)
      from fastMatch_spec [OF this assms(2,3)] show ?thesis
        using Some \<open>map_of (keyToChildNode (rootNode d)) (Itoa (int (length tokens))) = Some node\<close>
        by (simp add: spec_candidates_def)
    qed
  qed
qed

lemma runMiner_cache:
  assumes r: "runMiner N cfg lines = Inr (cs, d)" and b: "int (length lines) \<le> MaxInt"
  shows "keyToChildNode (rootNode d) = [] \<or> cache (idToCluster d) \<noteq> None"
proof -
  from r obtain d0 where n: "New cfg = Inr d0" and t: "trainAll N d0 lines = Inr (cs, d)"
    by (rule runMiner_Inr)
  note i0 = New_inv [OF n]
  show ?thesis
  proof (cases lines)
    case Nil
    then have "d = d0" using t by simp
    then show ?thesis using n by (auto simp: New_def createNode_def split: if_splits)
  next
    case (Cons l ls)
    from t Cons obtain c d1 cs1 where L: "Log N d0 l = Inr (c, d1)"
        and T: "trainAll N d1 ls = Inr (cs1, d)"
      by (auto split: sum.splits)
    have lt: "clustersCounter d0 < MaxInt" using b Cons i0(3) by simp
    note s = Log_step [OF i0(1) lt L]
    note f = Log_step_facts [OF i0(1) lt L]
    have "clustersCounter d1 + int (length ls) \<le> MaxInt" using f(2) b Cons i0(3) by simp
    from trainAll_cache [OF s(4) s(1) this T] show ?thesis by simp
  qed
qed

text \<open>
  C4. \<^verbatim>\<open>Match\<close> tokenizes the line and searches the tree with
  \<open>include_params = true\<close>. In every state reached by training it returns. What it
  returns is the best cluster of the spec's selection (4.5) among the candidates at the
  leaf of the spec's descent (4.4), or none; the score of a candidate is the spec's
  similarity (4.2) with the wildcards counted, as \<^verbatim>\<open>float64\<close> holds it, that is rounded,
  for a line of fewer than \<open>2 ^ 53\<close> tokens. It leaves the tree, the counter and the
  configuration as they are; the store keeps its entries with their templates and sizes,
  and only its recency order can change.
\<close>

theorem Match_best_cluster_read_only:
  "(runMiner Number cfg lines = Inr (clusters, d) \<longrightarrow> int (length lines) \<le> MaxInt
      \<longrightarrow> (\<exists>r0 d0. Match d content = Inr (r0, d0)))
   \<and> (Match d content = Inr (r, d') \<longrightarrow>
         (int (length (getContentAsTokens d content)) < 2 ^ 53 \<longrightarrow>
            r = spec_best (SimTh (config d))
                  (\<lambda>cl. apfst round_f64
                           (spec_seq_distance (ParamString (config d)) (logTemplateTokens cl)
                              (getContentAsTokens d content) True))
                  (spec_candidates d (getContentAsTokens d content)))
         \<and> d' = d\<lparr>idToCluster := idToCluster d'\<rparr>
         \<and> lookup (idToCluster d') = lookup (idToCluster d)
         \<and> same_entries (idToCluster d) (idToCluster d'))"
proof (intro conjI impI)
  have ne: "getContentAsTokens d content \<noteq> []" by (rule getContentAsTokens_nonempty)
  {
    assume r: "runMiner Number cfg lines = Inr (clusters, d)" and b: "int (length lines) \<le> MaxInt"
    have inv: "len_inv d" using runMiner_inv(1) [OF r b] .
    show "\<exists>r0 d0. Match d content = Inr (r0, d0)"
    proof (cases "Match d content")
      case (Inr p)
      then show ?thesis by (cases p) auto
    next
      case (Inl e)
      then have t: "treeSearch d (rootNode d) (getContentAsTokens d content) (SimTh (config d)) True
                      = Inl e"
        by (simp add: Match_def)
      from treeSearch_Inl [OF inv ne t] have "cache (idToCluster d) = None" by simp
      then have "keyToChildNode (rootNode d) = []" using runMiner_cache [OF r b] by simp
      then show ?thesis using t by (simp add: treeSearch_def)
    qed
  }
  assume m: "Match d content = Inr (r, d')"
  then have t: "treeSearch d (rootNode d) (getContentAsTokens d content) (SimTh (config d)) True
             = Inr (r, d')"
    by (simp add: Match_def)
  {
    assume "int (length (getContentAsTokens d content)) < 2 ^ 53"
    from treeSearch_spec [OF t ne this]
    show "r = spec_best (SimTh (config d))
                  (\<lambda>cl. apfst round_f64
                           (spec_seq_distance (ParamString (config d)) (logTemplateTokens cl)
                              (getContentAsTokens d content) True))
                  (spec_candidates d (getContentAsTokens d content))" .
  }
  have tr: "touch_rel d d'" using treeSearch_touch [OF ne t] .
  show "d' = d\<lparr>idToCluster := idToCluster d'\<rparr>"
    and "lookup (idToCluster d') = lookup (idToCluster d)"
    and "same_entries (idToCluster d) (idToCluster d')"
    using tr by (simp_all add: touch_rel_def)
qed

text \<open>
  After \<^verbatim>\<open>a b c\<close> and \<^verbatim>\<open>a b d\<close>, cluster 1 has the template \<^verbatim>\<open>a b <*>\<close>. Matching
  \<^verbatim>\<open>a x e\<close> returns it: with the wildcard counted the similarity is 2/3, which rounds
  to a number above the threshold, the \<^verbatim>\<open>float64\<close> nearest to 0.4. The search without the
  wildcards scores 1/3, below the threshold, and finds nothing.
\<close>

theorem Match_best_cluster_read_only_witness:
  "runMiner {} DefaultConfig [''a b c'', ''a b d'']
     = Inr (projr (runMiner {} DefaultConfig [''a b c'', ''a b d'']))
   \<and> int (length [''a b c'', ''a b d'']) \<le> MaxInt
   \<and> Match (snd (projr (runMiner {} DefaultConfig [''a b c'', ''a b d'']))) ''a x e''
       = Inr (projr (Match (snd (projr (runMiner {} DefaultConfig [''a b c'', ''a b d''])))
                       ''a x e''))
   \<and> fst (projr (Match (snd (projr (runMiner {} DefaultConfig [''a b c'', ''a b d''])))
                    ''a x e''))
       = Some \<lparr>logTemplateTokens = [''a'', ''b'', ''<*>''], id' = 1, size' = 2\<rparr>
   \<and> spec_candidates (snd (projr (runMiner {} DefaultConfig [''a b c'', ''a b d'']))) [''a'', ''x'', ''e'']
       = [\<lparr>logTemplateTokens = [''a'', ''b'', ''<*>''], id' = 1, size' = 2\<rparr>]
   \<and> spec_seq_distance ''<*>'' [''a'', ''b'', ''<*>''] [''a'', ''x'', ''e''] True = (2 / 3, 1)
   \<and> spec_seq_distance ''<*>'' [''a'', ''b'', ''<*>''] [''a'', ''x'', ''e''] False = (1 / 3, 1)
   \<and> round_f64 (2 / 3) = 6004799503160661 / 9007199254740992
   \<and> round_f64 (1 / 3) = 6004799503160661 / 18014398509481984
   \<and> SimTh (config (snd (projr (runMiner {} DefaultConfig [''a b c'', ''a b d'']))))
       = 3602879701896397 / 9007199254740992
   \<and> int (length (getContentAsTokens
                     (snd (projr (runMiner {} DefaultConfig [''a b c'', ''a b d''])))
                     ''a x e'')) < 2 ^ 53
   \<and> spec_best (SimTh (config (snd (projr (runMiner {} DefaultConfig [''a b c'', ''a b d'']))))) 
         (\<lambda>cl. apfst round_f64
                (spec_seq_distance
                   (ParamString (config (snd (projr (runMiner {} DefaultConfig [''a b c'', ''a b d'']))))) 
                   (logTemplateTokens cl)
                   (getContentAsTokens (snd (projr (runMiner {} DefaultConfig [''a b c'', ''a b d''])))
                      ''a x e'') True))
         (spec_candidates (snd (projr (runMiner {} DefaultConfig [''a b c'', ''a b d''])))
            (getContentAsTokens (snd (projr (runMiner {} DefaultConfig [''a b c'', ''a b d''])))
               ''a x e''))
       = Some \<lparr>logTemplateTokens = [''a'', ''b'', ''<*>''], id' = 1, size' = 2\<rparr>
   \<and> lookup (idToCluster (snd (projr (Match (snd (projr (runMiner {} DefaultConfig
                [''a b c'', ''a b d'']))) ''a x e''))))
       = lookup (idToCluster (snd (projr (runMiner {} DefaultConfig [''a b c'', ''a b d'']))))
   \<and> fst (projr (treeSearch (snd (projr (runMiner {} DefaultConfig [''a b c'', ''a b d''])))
                    (rootNode (snd (projr (runMiner {} DefaultConfig [''a b c'', ''a b d'']))))
                    [''a'', ''x'', ''e'']
                    (SimTh (config (snd (projr (runMiner {} DefaultConfig [''a b c'', ''a b d''])))))
                    False))
       = None"
proof -
  define L where "L = [''a b c'', ''a b d'']"
  define P where "P = projr (runMiner {} DefaultConfig L)"
  define Q where "Q = projr (Match (snd P) ''a x e'')"
  define c1 where "c1 = \<lparr>logTemplateTokens = [''a'', ''b'', ''<*>''], id' = 1, size' = 2\<rparr>"
  have r: "runMiner {} DefaultConfig L = Inr P"
    unfolding P_def L_def by code_simp
  have b: "int (length L) \<le> MaxInt" unfolding L_def by (simp add: MaxInt_def)
  have m: "Match (snd P) ''a x e'' = Inr (fst Q, snd Q)"
    unfolding Q_def P_def L_def by code_simp
  have m': "Match (snd P) ''a x e'' = Inr Q" using m by simp
  have f: "fst Q = Some c1" unfolding Q_def P_def L_def c1_def by code_simp
  have k: "spec_candidates (snd P) [''a'', ''x'', ''e''] = [c1]"
    unfolding P_def L_def c1_def by code_simp
  have s1: "spec_seq_distance ''<*>'' [''a'', ''b'', ''<*>''] [''a'', ''x'', ''e''] True = (2 / 3, 1)"
    by (simp add: spec_seq_distance_def)
  have s2: "spec_seq_distance ''<*>'' [''a'', ''b'', ''<*>''] [''a'', ''x'', ''e''] False = (1 / 3, 1)"
    by (simp add: spec_seq_distance_def)
  have n: "fst (projr (treeSearch (snd P) (rootNode (snd P)) [''a'', ''x'', ''e'']
                         (SimTh (config (snd P))) False))
             = None"
    unfolding P_def L_def by code_simp
  have f1: "round_f64 (2 / 3) = 6004799503160661 / 9007199254740992" by code_simp
  have f2: "round_f64 (1 / 3) = 6004799503160661 / 18014398509481984" by code_simp
  have th: "SimTh (config (snd P)) = 3602879701896397 / 9007199254740992"
    unfolding P_def L_def by code_simp
  have ln: "int (length (getContentAsTokens (snd P) ''a x e'')) < 2 ^ 53"
    unfolding P_def L_def by code_simp
  note inst = Match_best_cluster_read_only [of "{}" DefaultConfig L "fst P" "snd P" "''a x e''" "fst Q" "snd Q"]
  have x: "spec_best (SimTh (config (snd P)))
         (\<lambda>cl. apfst round_f64
                (spec_seq_distance (ParamString (config (snd P))) (logTemplateTokens cl)
                   (getContentAsTokens (snd P) ''a x e'') True))
         (spec_candidates (snd P) (getContentAsTokens (snd P) ''a x e'')) = Some c1"
    using inst m f ln by simp
  have y: "lookup (idToCluster (snd Q)) = lookup (idToCluster (snd P))"
    using inst m by simp
  show ?thesis using r b m' f k s1 s2 f1 f2 th ln x y n unfolding Q_def P_def L_def c1_def by blast
qed

end
